theory Spec2Isabelle
  imports Complex_Main "HOL-Library.Sublist" "HOL-Library.Multiset"
begin

section \<open>Python strings\<close>

text \<open>
  A Python \<open>str\<close> is a sequence of Unicode code points, so it is modelled as a list of
  natural numbers; \<open>lit\<close> turns an ASCII literal into that form.  The string methods used
  by \<^verbatim>\<open>scripts/converter.py\<close> and \<^verbatim>\<open>scripts/excel_processor.py\<close> are modelled with
  the behaviour of CPython 3.
\<close>

type_synonym pystr = "nat list"

abbreviation lit :: "string \<Rightarrow> pystr" where
  "lit s \<equiv> map of_char s"

text \<open>
  \<open>str.isspace\<close> on one code point.  These 29 code points are also the ones that
  \<open>str.strip()\<close> removes, that \<open>\s\<close> matches in a \<open>str\<close> pattern, and that
  \<open>float()\<close> ignores around a number.
\<close>

definition isspace :: "nat \<Rightarrow> bool" where
  "isspace c \<longleftrightarrow> (9 \<le> c \<and> c \<le> 13) \<or> (28 \<le> c \<and> c \<le> 32) \<or> c = 133 \<or> c = 160
     \<or> c = 5760 \<or> (8192 \<le> c \<and> c \<le> 8202) \<or> c = 8232 \<or> c = 8233 \<or> c = 8239
     \<or> c = 8287 \<or> c = 12288"

text \<open>
  \<open>s.strip()\<close>: whitespace removed at both ends.  \<open>strip_ends P\<close> removes the
  characters that satisfy \<open>P\<close> at both ends.
\<close>

definition strip_ends :: "(nat \<Rightarrow> bool) \<Rightarrow> pystr \<Rightarrow> pystr" where
  "strip_ends P s = rev (dropWhile P (rev (dropWhile P s)))"

definition py_strip :: "pystr \<Rightarrow> pystr" where
  "py_strip s = strip_ends isspace s"

text \<open>
  \<open>s.replace(old, new)\<close>: the occurrences of \<open>old\<close> are found from left to right
  without overlap, and the scan resumes after each one.  \<open>replace_scan\<close> is the scan for a
  non-empty \<open>old\<close>: on a match at \<open>c # cs\<close> it skips \<open>length old\<close> characters, that
  is \<open>length old - 1\<close> characters of \<open>cs\<close>.  With an empty \<open>old\<close>, Python inserts
  \<open>new\<close> before every character and at the end.
\<close>

fun replace_scan :: "pystr \<Rightarrow> pystr \<Rightarrow> pystr \<Rightarrow> pystr" where
  "replace_scan old new [] = []"
| "replace_scan old new (c # cs) =
     (if prefix old (c # cs) then new @ replace_scan old new (drop (length old - 1) cs)
      else c # replace_scan old new cs)"

definition py_replace :: "pystr \<Rightarrow> pystr \<Rightarrow> pystr \<Rightarrow> pystr" where
  "py_replace old new s =
     (if old = [] then concat (map (\<lambda>c. new @ [c]) s) @ new else replace_scan old new s)"

section \<open>Constants of \<^verbatim>\<open>scripts/converter.py\<close>\<close>

definition CURRENCY_SYMBOLS :: "pystr list" where
  "CURRENCY_SYMBOLS = [lit ''$'', lit ''MXN'', lit ''M.N.'', lit ''MN'', lit '','']"

definition DECIMAL_PRECISION :: int where
  "DECIMAL_PRECISION = 100"

definition CURRENCY_SUFFIX :: pystr where
  "CURRENCY_SUFFIX = lit ''M.N.''"

text \<open>
  The loop of \<open>clean_num\<close> that removes the symbols,
  \<^verbatim>\<open>for symbol in CURRENCY_SYMBOLS: value_str = value_str.replace(symbol, "")\<close>,
  with the tuple it iterates over as an argument, so that other orders of the same
  symbols can be compared with the one of the source.
\<close>

definition strip_symbols :: "pystr list \<Rightarrow> pystr \<Rightarrow> pystr" where
  "strip_symbols symbols value_str =
     foldl (\<lambda>v symbol. py_replace symbol [] v) value_str symbols"

text \<open>
  The characters that survive the removal of the two one-character symbols \<open>$\<close> and
  \<open>,\<close>, and the three symbols that are words.
\<close>

definition keep :: "nat \<Rightarrow> bool" where
  "keep c \<longleftrightarrow> c \<noteq> 36 \<and> c \<noteq> 44"

definition word_symbols :: "pystr list" where
  "word_symbols = [lit ''MXN'', lit ''M.N.'', lit ''MN'']"

definition symbol_words_absent :: "pystr \<Rightarrow> bool" where
  "symbol_words_absent s \<longleftrightarrow> list_all (\<lambda>w. \<not> sublist w (filter keep s)) word_symbols"

text \<open>
  A text into which symbol words have been put: \<open>weave a tas\<close> is the piece \<open>a\<close>
  followed, for each pair \<open>(t, b)\<close> of \<open>tas\<close>, by the word \<open>t\<close> and the piece \<open>b\<close>;
  \<open>flat a tas\<close> is the text alone, its pieces one after the other.  It is
  \<open>well_woven\<close> when the words put in are symbol words and the text itself, once
  \<open>$\<close> and \<open>,\<close> are deleted, contains none of them.  \<open>del_word\<close> and \<open>del_char\<close> are
  what the removal of a word and of a character leave of it.
\<close>

fun weave :: "pystr \<Rightarrow> (pystr \<times> pystr) list \<Rightarrow> pystr" where
  "weave a [] = a"
| "weave a ((t, b) # r) = a @ t @ weave b r"

definition flat :: "pystr \<Rightarrow> (pystr \<times> pystr) list \<Rightarrow> pystr" where
  "flat a tas = a @ concat (map snd tas)"

definition well_woven :: "pystr \<Rightarrow> (pystr \<times> pystr) list \<Rightarrow> bool" where
  "well_woven a tas \<longleftrightarrow>
     list_all (\<lambda>(t, b). t \<in> set word_symbols) tas \<and> symbol_words_absent (flat a tas)"

fun del_word :: "pystr \<Rightarrow> pystr \<Rightarrow> (pystr \<times> pystr) list \<Rightarrow> pystr \<times> (pystr \<times> pystr) list" where
  "del_word w a [] = (a, [])"
| "del_word w a ((t, b) # r) =
     (if t = w then del_word w (a @ b) r
      else (a, (t, fst (del_word w b r)) # snd (del_word w b r)))"

definition del_char :: "nat \<Rightarrow> pystr \<Rightarrow> (pystr \<times> pystr) list \<Rightarrow> pystr \<times> (pystr \<times> pystr) list" where
  "del_char c a tas = (filter (\<lambda>x. x \<noteq> c) a, map (\<lambda>(t, b). (t, filter (\<lambda>x. x \<noteq> c) b)) tas)"

section \<open>The normalisation of UNO\<close>

text \<open>
  Lines 111 to 116 of \<open>numero_a_texto\<close>: three literal replacements, applied to the
  upper-cased cardinal text one after the other.
\<close>

definition normalize_uno :: "pystr \<Rightarrow> pystr" where
  "normalize_uno texto_numero =
     py_replace (lit '' UNO'') (lit '' UN'')
       (py_replace (lit ''UNO '') (lit ''UN '')
         (py_replace (lit '' UNO '') (lit '' UN '') texto_numero))"

text \<open>
  A text read as words: \<open>join_words\<close> is \<^verbatim>\<open>" ".join(ws)\<close>.  The description of the
  result in terms of words: \<open>drop_final_o\<close> turns a word that ends in UNO into the same
  word without its last letter, \<open>drop_initial_o\<close> turns a word that begins with UNO into
  the same word without that O; \<open>uno_words\<close> applies the first to every word but the
  last and then the second to every word but the first.
\<close>

fun join_words :: "pystr list \<Rightarrow> pystr" where
  "join_words [] = []"
| "join_words [w] = w"
| "join_words (w # v # vs) = w @ 32 # join_words (v # vs)"

definition drop_final_o :: "pystr \<Rightarrow> pystr" where
  "drop_final_o w = (if suffix (lit ''UNO'') w then butlast w else w)"

definition drop_initial_o :: "pystr \<Rightarrow> pystr" where
  "drop_initial_o w = (if prefix (lit ''UNO'') w then lit ''UN'' @ drop 3 w else w)"

fun uno_tail :: "pystr list \<Rightarrow> pystr list" where
  "uno_tail [] = []"
| "uno_tail [v] = [drop_initial_o v]"
| "uno_tail (v # u # us) = drop_initial_o (drop_final_o v) # uno_tail (u # us)"

fun uno_words :: "pystr list \<Rightarrow> pystr list" where
  "uno_words [] = []"
| "uno_words [w] = [w]"
| "uno_words (w # v # vs) = drop_final_o w # uno_tail (v # vs)"

definition spaceless :: "pystr list \<Rightarrow> bool" where
  "spaceless ws \<longleftrightarrow> list_all (\<lambda>w. 32 \<notin> set w) ws"

text \<open>
  What each of the three replacements does to a list of words: the first rewrites a word
  UNO that has a word on both sides, and resumes after the space that follows it; the
  second shortens every word but the last.  \<open>tail_text\<close> is the text of the words that
  follow the first one, each with the space before it.
\<close>

definition tail_text :: "pystr list \<Rightarrow> pystr" where
  "tail_text vs = concat (map ((#) 32) vs)"

fun inner_uno :: "pystr list \<Rightarrow> pystr list" where
  "inner_uno [] = []"
| "inner_uno [v] = [v]"
| "inner_uno (v # u # us) =
     (if v = lit ''UNO'' then lit ''UN'' # u # inner_uno us else v # inner_uno (u # us))"

fun shorten_but_last :: "pystr list \<Rightarrow> pystr list" where
  "shorten_but_last [] = []"
| "shorten_but_last [w] = [w]"
| "shorten_but_last (w # v # vs) = drop_final_o w # shorten_but_last (v # vs)"

section \<open>Unicode data\<close>

text \<open>
  \<open>normalize\<close> calls three functions of the Python library that read the Unicode
  character database: \<open>unicodedata.normalize\<close>, \<open>unicodedata.combining\<close> and
  \<open>str.lower\<close>.  The program is modelled for an arbitrary library, a record of these
  three functions; what is proved of it for every library holds of the one of CPython.
\<close>

datatype normal_form = NFD | NFKD

record unicode_library =
  unicodedata_normalize :: "normal_form \<Rightarrow> pystr \<Rightarrow> pystr"
  unicodedata_combining :: "nat \<Rightarrow> nat"
  str_lower :: "pystr \<Rightarrow> pystr"

text \<open>
  A fragment of the database of Unicode 14: its data for the code points below U+0100,
  for the combining diacritical marks U+0300 to U+036F, for the full-width forms U+FF01
  to U+FF5E, and for U+03BC and U+2044, which decompositions of the former contain.
  The functions \<open>fragment_normalize\<close>, \<open>fragment_combining\<close> and \<open>fragment_lower\<close>
  compute from it what the three library functions return on strings of these code
  points, and are used on such strings only; \<open>in_fragment\<close> tells these code points.

  \<open>decomposition_table\<close> lists, for a code point, whether its decomposition is a
  compatibility one, and its full decomposition.
\<close>

definition in_fragment :: "nat \<Rightarrow> bool" where
  "in_fragment c \<longleftrightarrow>
     c < 256 \<or> (768 \<le> c \<and> c \<le> 879) \<or> (65281 \<le> c \<and> c \<le> 65374) \<or> c = 956 \<or> c = 8260"

definition decomposition_table :: "(nat \<times> bool \<times> nat list) list" where
  "decomposition_table = [
     (160, True, [32]), (168, True, [32, 776]), (170, True, [97]), (175, True, [32, 772]),
     (178, True, [50]), (179, True, [51]), (180, True, [32, 769]), (181, True, [956]),
     (184, True, [32, 807]), (185, True, [49]), (186, True, [111]),
     (188, True, [49, 8260, 52]), (189, True, [49, 8260, 50]), (190, True, [51, 8260, 52]),
     (192, False, [65, 768]), (193, False, [65, 769]), (194, False, [65, 770]),
     (195, False, [65, 771]), (196, False, [65, 776]), (197, False, [65, 778]),
     (199, False, [67, 807]), (200, False, [69, 768]), (201, False, [69, 769]),
     (202, False, [69, 770]), (203, False, [69, 776]), (204, False, [73, 768]),
     (205, False, [73, 769]), (206, False, [73, 770]), (207, False, [73, 776]),
     (209, False, [78, 771]), (210, False, [79, 768]), (211, False, [79, 769]),
     (212, False, [79, 770]), (213, False, [79, 771]), (214, False, [79, 776]),
     (217, False, [85, 768]), (218, False, [85, 769]), (219, False, [85, 770]),
     (220, False, [85, 776]), (221, False, [89, 769]), (224, False, [97, 768]),
     (225, False, [97, 769]), (226, False, [97, 770]), (227, False, [97, 771]),
     (228, False, [97, 776]), (229, False, [97, 778]), (231, False, [99, 807]),
     (232, False, [101, 768]), (233, False, [101, 769]), (234, False, [101, 770]),
     (235, False, [101, 776]), (236, False, [105, 768]), (237, False, [105, 769]),
     (238, False, [105, 770]), (239, False, [105, 776]), (241, False, [110, 771]),
     (242, False, [111, 768]), (243, False, [111, 769]), (244, False, [111, 770]),
     (245, False, [111, 771]), (246, False, [111, 776]), (249, False, [117, 768]),
     (250, False, [117, 769]), (251, False, [117, 770]), (252, False, [117, 776]),
     (253, False, [121, 769]), (255, False, [121, 776]), (832, False, [768]),
     (833, False, [769]), (835, False, [787]), (836, False, [776, 769])
   ]"

definition combining_ranges :: "(nat \<times> nat \<times> nat) list" where
  "combining_ranges = [
     (768, 788, 230), (789, 789, 232), (790, 793, 220), (794, 794, 232), (795, 795, 216),
     (796, 800, 220), (801, 802, 202), (803, 806, 220), (807, 808, 202), (809, 819, 220),
     (820, 824, 1), (825, 828, 220), (829, 836, 230), (837, 837, 240), (838, 838, 230),
     (839, 841, 220), (842, 844, 230), (845, 846, 220), (848, 850, 230), (851, 854, 220),
     (855, 855, 230), (856, 856, 232), (857, 858, 220), (859, 859, 230), (860, 860, 233),
     (861, 862, 234), (863, 863, 233), (864, 865, 234), (866, 866, 233), (867, 879, 230)
   ]"

definition fragment_decompose :: "normal_form \<Rightarrow> nat \<Rightarrow> pystr" where
  "fragment_decompose form c =
     (if 65281 \<le> c \<and> c \<le> 65374 then (if form = NFKD then [c - 65248] else [c])
      else case map_of decomposition_table c of
             None \<Rightarrow> [c]
           | Some (is_compat, ds) \<Rightarrow> if is_compat \<and> form = NFD then [c] else ds)"

text \<open>The canonical combining class of a code point of the fragment.\<close>

definition fragment_combining :: "nat \<Rightarrow> nat" where
  "fragment_combining c =
     (case find (\<lambda>(lo, hi, k). lo \<le> c \<and> c \<le> hi) combining_ranges of
        None \<Rightarrow> 0
      | Some (lo, hi, k) \<Rightarrow> k)"

text \<open>
  The canonical ordering of a decomposed string: a character of non-zero class moves
  before the characters of greater class that precede it.  \<open>bubble\<close> inserts one
  character into the reversed prefix already in order.
\<close>

fun bubble :: "nat \<Rightarrow> pystr \<Rightarrow> pystr" where
  "bubble c [] = [c]"
| "bubble c (p # ps) =
     (if fragment_combining c \<noteq> 0 \<and> fragment_combining c < fragment_combining p
      then p # bubble c ps else c # p # ps)"

definition canonical_order :: "pystr \<Rightarrow> pystr" where
  "canonical_order s = rev (foldl (\<lambda>acc c. bubble c acc) [] s)"

text \<open>The two decomposing normal forms of a string of the fragment.\<close>

definition fragment_normalize :: "normal_form \<Rightarrow> pystr \<Rightarrow> pystr" where
  "fragment_normalize form s = canonical_order (concat (map (fragment_decompose form) s))"

text \<open>
  The lower case of a string of the fragment, and \<open>str.upper\<close> on the text of
  \<open>num2words\<close>, code point by code point.
\<close>

definition fragment_lower_char :: "nat \<Rightarrow> pystr" where
  "fragment_lower_char c =
     (if (65 \<le> c \<and> c \<le> 90) \<or> (192 \<le> c \<and> c \<le> 214) \<or> (216 \<le> c \<and> c \<le> 222)
         \<or> (65313 \<le> c \<and> c \<le> 65338)
      then [c + 32] else [c])"

definition fragment_lower :: "pystr \<Rightarrow> pystr" where
  "fragment_lower s = concat (map fragment_lower_char s)"

definition upper_char :: "nat \<Rightarrow> pystr" where
  "upper_char c =
     (if (97 \<le> c \<and> c \<le> 122) \<or> (224 \<le> c \<and> c \<le> 246) \<or> (248 \<le> c \<and> c \<le> 254)
         \<or> (65345 \<le> c \<and> c \<le> 65370)
      then [c - 32]
      else if c = 223 then [83, 83]
      else if c = 181 \<or> c = 956 then [924]
      else if c = 255 then [376]
      else if c = 837 then [921]
      else [c])"

definition py_upper :: "pystr \<Rightarrow> pystr" where
  "py_upper s = concat (map upper_char s)"

text \<open>
  \<^verbatim>\<open>re.sub(r"\s+", "", s)\<close>: every maximal run of whitespace is replaced by the empty
  string.
\<close>

function (sequential) re_sub_ws :: "pystr \<Rightarrow> pystr" where
  "re_sub_ws [] = []"
| "re_sub_ws (c # cs) =
     (if isspace c then re_sub_ws (dropWhile isspace cs) else c # re_sub_ws cs)"
  by pat_completeness auto
termination
  by (relation "measure length") (auto simp: le_imp_less_Suc length_dropWhile_le)

section \<open>Python floats\<close>

text \<open>
  A Python \<open>float\<close> is an IEEE 754 binary64 value: a finite number, an infinity or a
  NaN.  A finite value is modelled by the real number it denotes (the two zeros are one
  value: the program never tells them apart).  Every operation computes the exact result
  and rounds it to the nearest binary64 value, ties to the even mantissa, as the hardware
  does: \<open>to_double\<close> is that rounding, with 53 bits of mantissa, the least exponent
  \<open>-1022\<close> (below it the spacing of the values no longer shrinks) and overflow to an
  infinity from \<open>2 ^ 1024\<close> on.
\<close>

datatype pyfloat = Finite real | PosInf | NegInf | NaN

definition round_half_even :: "real \<Rightarrow> int" where
  "round_half_even x =
     (let f = \<lfloor>x\<rfloor>; r = x - of_int f
      in if r < 1/2 then f else if 1/2 < r then f + 1 else if even f then f else f + 1)"

definition ipow :: "nat \<Rightarrow> int \<Rightarrow> real" where
  "ipow b k = (if 0 \<le> k then real b ^ nat k else 1 / real b ^ nat (- k))"

text \<open>
  \<open>ilog b x\<close> is the integer \<open>e\<close> with \<open>b ^ e \<le> x < b ^ (e + 1)\<close>, for a positive
  \<open>x\<close>: found by dividing down to below \<open>b\<close>, or by multiplying up to \<open>1\<close>.
\<close>

function ilog_up :: "nat \<Rightarrow> real \<Rightarrow> int" where
  "ilog_up b x = (if b < 2 \<or> x < real b then 0 else 1 + ilog_up b (x / real b))"
  by pat_completeness auto
termination
proof (relation "measure (\<lambda>(b, x). nat \<lfloor>x\<rfloor>)")
  show "wf (measure (\<lambda>(b, x). nat \<lfloor>x\<rfloor>))" by simp
next
  fix b :: nat and x :: real
  assume a: "\<not> (b < 2 \<or> x < real b)"
  then have b: "2 \<le> real b" and x: "real b \<le> x" by auto
  then have x2: "2 \<le> x" by linarith
  have "x / real b \<le> x / 2" using b x2 by (intro divide_left_mono) simp_all
  moreover have "x / 2 < of_int \<lfloor>x\<rfloor>"
  proof -
    have "x < of_int \<lfloor>x\<rfloor> + 1" by linarith
    moreover have "1 \<le> (of_int \<lfloor>x\<rfloor> :: real)" using x2 by linarith
    ultimately show ?thesis by linarith
  qed
  ultimately have "x / real b < of_int \<lfloor>x\<rfloor>" by linarith
  then have "\<lfloor>x / real b\<rfloor> < \<lfloor>x\<rfloor>" by (simp only: floor_less_iff)
  moreover have "0 < \<lfloor>x\<rfloor>" using x2 by linarith
  ultimately show "((b, x / real b), (b, x)) \<in> measure (\<lambda>(b, x). nat \<lfloor>x\<rfloor>)"
    by (simp only: in_measure prod.case zless_nat_conj)
qed

function ilog_down :: "nat \<Rightarrow> real \<Rightarrow> int" where
  "ilog_down b x = (if b < 2 \<or> x \<le> 0 \<or> 1 \<le> x then 0 else ilog_down b (x * real b) - 1)"
  by pat_completeness auto
termination
proof (relation "measure (\<lambda>(b, x). nat \<lfloor>1 / x\<rfloor>)")
  show "wf (measure (\<lambda>(b, x). nat \<lfloor>1 / x\<rfloor>))" by simp
next
  fix b :: nat and x :: real
  assume a: "\<not> (b < 2 \<or> x \<le> 0 \<or> 1 \<le> x)"
  then have b: "2 \<le> real b" and x0: "0 < x" and x1: "x < 1" by auto
  define y where "y = 1 / x"
  have y1: "1 < y" using x0 x1 by (simp add: y_def)
  have eq: "1 / (x * real b) = y / real b" by (simp add: y_def)
  have "y / real b \<le> y / 2" using b y1 by (intro divide_left_mono) simp_all
  moreover have "y / 2 < of_int \<lfloor>y\<rfloor>"
  proof -
    have "y < of_int \<lfloor>y\<rfloor> + 1" by linarith
    moreover have "1 \<le> \<lfloor>y\<rfloor>" using y1 by (simp add: le_floor_iff)
    then have "1 \<le> (of_int \<lfloor>y\<rfloor> :: real)" by simp
    ultimately show ?thesis by linarith
  qed
  ultimately have "y / real b < of_int \<lfloor>y\<rfloor>" by linarith
  then have "\<lfloor>1 / (x * real b)\<rfloor> < \<lfloor>y\<rfloor>" by (simp only: floor_less_iff eq)
  moreover have "0 < \<lfloor>y\<rfloor>" using y1 by (simp add: less_floor_iff)
  ultimately show "((b, x * real b), (b, x)) \<in> measure (\<lambda>(b, x). nat \<lfloor>1 / x\<rfloor>)"
    by (simp only: y_def in_measure prod.case zless_nat_conj)
qed

declare ilog_up.simps [simp del] ilog_down.simps [simp del]

definition ilog :: "nat \<Rightarrow> real \<Rightarrow> int" where
  "ilog b x = (if 1 \<le> x then ilog_up b x else ilog_down b x)"

definition to_double :: "real \<Rightarrow> pyfloat" where
  "to_double x =
     (if x = 0 then Finite 0
      else let a = \<bar>x\<bar>;
               e = max (ilog 2 a) (- 1022);
               u = ipow 2 (e - 52);
               y = of_int (round_half_even (a / u)) * u
           in if ipow 2 1024 \<le> y then (if 0 < x then PosInf else NegInf)
              else Finite (if 0 < x then y else - y))"

text \<open>Subtraction and multiplication of floats.\<close>

fun fsub :: "pyfloat \<Rightarrow> pyfloat \<Rightarrow> pyfloat" where
  "fsub (Finite x) (Finite y) = to_double (x - y)"
| "fsub NaN _ = NaN"
| "fsub _ NaN = NaN"
| "fsub PosInf PosInf = NaN"
| "fsub NegInf NegInf = NaN"
| "fsub PosInf _ = PosInf"
| "fsub NegInf _ = NegInf"
| "fsub (Finite x) PosInf = NegInf"
| "fsub (Finite x) NegInf = PosInf"

fun fneg :: "pyfloat \<Rightarrow> pyfloat" where
  "fneg (Finite x) = Finite (- x)"
| "fneg PosInf = NegInf"
| "fneg NegInf = PosInf"
| "fneg NaN = NaN"

fun fmul :: "pyfloat \<Rightarrow> pyfloat \<Rightarrow> pyfloat" where
  "fmul (Finite x) (Finite y) = to_double (x * y)"
| "fmul NaN _ = NaN"
| "fmul _ NaN = NaN"
| "fmul (Finite x) i = (if x = 0 then NaN else if 0 < x then i else fneg i)"
| "fmul i (Finite y) = (if y = 0 then NaN else if 0 < y then i else fneg i)"
| "fmul PosInf i = i"
| "fmul NegInf i = fneg i"

section \<open>Numbers as text\<close>

text \<open>\<open>str(n)\<close> for an \<open>int\<close>: decimal digits, with a minus sign when negative.\<close>

function digits :: "nat \<Rightarrow> pystr" where
  "digits n = (if n < 10 then [48 + n] else digits (n div 10) @ [48 + n mod 10])"
  by pat_completeness auto
termination
  by (relation "measure id") auto

declare digits.simps [simp del]

definition str_int :: "int \<Rightarrow> pystr" where
  "str_int n = (if n < 0 then 45 # digits (nat (- n)) else digits (nat n))"

text \<open>
  The format \<^verbatim>\<open>{parte_decimal:02d}\<close>: at least two characters, padded with a zero
  after the sign.
\<close>

definition format_02d :: "int \<Rightarrow> pystr" where
  "format_02d n =
     (if n < 0 then 45 # digits (nat (- n))
      else if n < 10 then 48 # digits (nat n)
      else digits (nat n))"

text \<open>
  \<open>float(s)\<close> for a string.  CPython first maps the string to ASCII: a character below
  128 stays, any other whitespace becomes a space, a decimal digit of any script becomes
  the ASCII digit (\<open>decimal_starts\<close> holds the code point of the zero of each of the 66
  sets of digits of Unicode 14), and anything else becomes \<open>?\<close>.  An underscore must
  stand between two digits and is dropped.  ASCII whitespace is stripped at both ends,
  and the rest must be, after an optional sign, \<open>inf\<close>, \<open>infinity\<close> or \<open>nan\<close> in any
  case, or digits with an optional point and an optional exponent, with a digit before or
  after the point.  The value is the decimal number rounded to the nearest float.
  \<open>None\<close> stands for the \<open>ValueError\<close> that \<open>float\<close> raises.
\<close>

definition decimal_starts :: "nat list" where
  "decimal_starts = [48, 1632, 1776, 1984, 2406, 2534, 2662, 2790, 2918, 3046, 3174, 3302,
     3430, 3558, 3664, 3792, 3872, 4160, 4240, 6112, 6160, 6470, 6608, 6784, 6800, 6992,
     7088, 7232, 7248, 42528, 43216, 43264, 43472, 43504, 43600, 44016, 65296, 66720, 68912,
     69734, 69872, 69942, 70096, 70384, 70736, 70864, 71248, 71360, 71472, 71904, 72016,
     72784, 73040, 73120, 92768, 92864, 93008, 120782, 120792, 120802, 120812, 120822,
     123200, 123632, 125264, 130032]"

definition decimal_value :: "nat \<Rightarrow> nat option" where
  "decimal_value c =
     (case find (\<lambda>z. z \<le> c \<and> c < z + 10) decimal_starts of
        None \<Rightarrow> None
      | Some z \<Rightarrow> Some (c - z))"

definition to_ascii :: "nat \<Rightarrow> nat" where
  "to_ascii c =
     (if c < 128 then c
      else if isspace c then 32
      else case decimal_value c of Some d \<Rightarrow> 48 + d | None \<Rightarrow> 63)"

definition is_digit :: "nat \<Rightarrow> bool" where
  "is_digit c \<longleftrightarrow> 48 \<le> c \<and> c \<le> 57"

definition ascii_space :: "nat \<Rightarrow> bool" where
  "ascii_space c \<longleftrightarrow> (9 \<le> c \<and> c \<le> 13) \<or> c = 32"

definition ascii_strip :: "pystr \<Rightarrow> pystr" where
  "ascii_strip s = strip_ends ascii_space s"

definition ascii_lower :: "pystr \<Rightarrow> pystr" where
  "ascii_lower s = map (\<lambda>c. if 65 \<le> c \<and> c \<le> 90 then c + 32 else c) s"

fun underscores_ok :: "nat \<Rightarrow> pystr \<Rightarrow> bool" where
  "underscores_ok prev [] = (prev \<noteq> 95)"
| "underscores_ok prev (c # cs) =
     (if c = 95 then is_digit prev \<and> underscores_ok c cs
      else if prev = 95 then is_digit c \<and> underscores_ok c cs
      else underscores_ok c cs)"

definition digits_value :: "pystr \<Rightarrow> nat" where
  "digits_value ds = foldl (\<lambda>acc c. 10 * acc + (c - 48)) 0 ds"

definition is_negative :: "pystr \<Rightarrow> bool" where
  "is_negative s \<longleftrightarrow> s \<noteq> [] \<and> hd s = 45"

definition after_sign :: "pystr \<Rightarrow> pystr" where
  "after_sign s = (if s \<noteq> [] \<and> (hd s = 43 \<or> hd s = 45) then tl s else s)"

definition parse_exponent :: "pystr \<Rightarrow> int option" where
  "parse_exponent r =
     (if r = [] then Some 0
      else if hd r = 101 \<or> hd r = 69 then
        (let ds = after_sign (tl r)
         in if ds \<noteq> [] \<and> list_all is_digit ds
            then Some (if is_negative (tl r) then - int (digits_value ds) else int (digits_value ds))
            else None)
      else None)"

definition parse_decimal :: "pystr \<Rightarrow> real option" where
  "parse_decimal r =
     (let ip = takeWhile is_digit r;
          r1 = dropWhile is_digit r;
          has_point = (r1 \<noteq> [] \<and> hd r1 = 46);
          fp = (if has_point then takeWhile is_digit (tl r1) else []);
          r2 = (if has_point then dropWhile is_digit (tl r1) else r1)
      in if ip = [] \<and> fp = [] then None
         else case parse_exponent r2 of
                None \<Rightarrow> None
              | Some ex \<Rightarrow> Some (real (digits_value (ip @ fp)) * ipow 10 (ex - int (length fp))))"

definition parse_float_ascii :: "pystr \<Rightarrow> pyfloat option" where
  "parse_float_ascii t =
     (let w = ascii_lower (after_sign t)
      in if w = lit ''inf'' \<or> w = lit ''infinity'' then Some (if is_negative t then NegInf else PosInf)
         else if w = lit ''nan'' then Some NaN
         else case parse_decimal (after_sign t) of
                None \<Rightarrow> None
              | Some v \<Rightarrow> Some (to_double (if is_negative t then - v else v)))"

definition py_float :: "pystr \<Rightarrow> pyfloat option" where
  "py_float s =
     (let t = map to_ascii s
      in if underscores_ok 0 t then parse_float_ascii (ascii_strip (filter (\<lambda>c. c \<noteq> 95) t))
         else None)"

text \<open>
  \<open>str(x)\<close> for a \<open>float\<close>: the shortest string of digits that \<open>float\<close> reads back
  as \<open>x\<close> (17 digits always do) and, among the strings of that length, the nearest to
  \<open>x\<close>; in positional notation when the decimal point falls within
  \<open>-4 < decpt \<le> 16\<close>, in exponent notation otherwise.  \<open>nearest_first q\<close> lists the
  integers next to \<open>q\<close>, the nearest first (of two equally near, the even one);
  \<open>repr_candidates x k\<close> are the numbers of \<open>k\<close> significant digits next to \<open>x\<close>, each
  as an integer and a power of ten.
\<close>

definition nearest_first :: "real \<Rightarrow> int list" where
  "nearest_first q =
     (if q \<le> of_int \<lfloor>q\<rfloor> then [\<lfloor>q\<rfloor>]
      else [round_half_even q, if round_half_even q = \<lfloor>q\<rfloor> then \<lfloor>q\<rfloor> + 1 else \<lfloor>q\<rfloor>])"

definition repr_candidates :: "real \<Rightarrow> nat \<Rightarrow> (int \<times> int) list" where
  "repr_candidates x k =
     (let p = ilog 10 x - int k + 1 in map (\<lambda>d. (d, p)) (nearest_first (x / ipow 10 p)))"

definition reads_back :: "real \<Rightarrow> int \<times> int \<Rightarrow> bool" where
  "reads_back x dp \<longleftrightarrow> to_double (of_int (fst dp) * ipow 10 (snd dp)) = Finite x"

definition shortest_digits :: "real \<Rightarrow> int \<times> int" where
  "shortest_digits x =
     (case find (reads_back x)
             (concat (map (repr_candidates x)
                [1, 2, 3, 4, 5, 6, 7, 8, 9, 10, 11, 12, 13, 14, 15, 16, 17])) of
        Some dp \<Rightarrow> dp
      | None \<Rightarrow> (round_half_even (x / ipow 10 (ilog 10 x - 16)), ilog 10 x - 16))"

definition strip_trailing_zeros :: "pystr \<Rightarrow> pystr" where
  "strip_trailing_zeros ds = rev (dropWhile (\<lambda>c. c = 48) (rev ds))"

definition two_digits :: "nat \<Rightarrow> pystr" where
  "two_digits e = (if e < 10 then 48 # digits e else digits e)"

definition format_repr :: "pystr \<Rightarrow> int \<Rightarrow> pystr" where
  "format_repr ds decpt =
     (if decpt \<le> - 4 \<or> 16 < decpt then
        take 1 ds @ (if drop 1 ds = [] then [] else 46 # drop 1 ds)
          @ [101, if decpt - 1 < 0 then 45 else 43] @ two_digits (nat \<bar>decpt - 1\<bar>)
      else if decpt \<le> 0 then lit ''0.'' @ replicate (nat (- decpt)) 48 @ ds
      else if int (length ds) \<le> decpt then ds @ replicate (nat decpt - length ds) 48 @ lit ''.0''
      else take (nat decpt) ds @ [46] @ drop (nat decpt) ds)"

definition repr_finite :: "real \<Rightarrow> pystr" where
  "repr_finite a =
     (let ds = digits (nat (fst (shortest_digits a)))
      in format_repr (strip_trailing_zeros ds) (snd (shortest_digits a) + int (length ds)))"

fun float_repr :: "pyfloat \<Rightarrow> pystr" where
  "float_repr NaN = lit ''nan''"
| "float_repr PosInf = lit ''inf''"
| "float_repr NegInf = lit ''-inf''"
| "float_repr (Finite x) =
     (if x = 0 then lit ''0.0''
      else if x < 0 then 45 # repr_finite (- x)
      else repr_finite x)"

section \<open>Values and exceptions\<close>

text \<open>
  The scalars that reach the converter: \<open>None\<close>, a string, an integer or a float (a cell
  of a spreadsheet read by pandas is one of these; an empty cell is the float NaN).
\<close>

datatype pyval = PNone | PStr pystr | PInt int | PFloat pyfloat

fun py_str :: "pyval \<Rightarrow> pystr" where
  "py_str PNone = lit ''None''"
| "py_str (PStr s) = s"
| "py_str (PInt n) = str_int n"
| "py_str (PFloat x) = float_repr x"

text \<open>
  The exceptions that the code raises or lets through.  The \<open>ValueError\<close> that
  \<open>clean_num\<close> raises carries the value it could not convert; the \<open>ValueError\<close> of a
  built-in carries none.
\<close>

datatype pyexc = ValueError "pyval option" | TypeError | AttributeError | OverflowError

text \<open>\<open>int(x)\<close> truncates toward zero; it raises on an infinity and on NaN.\<close>

fun py_int :: "pyfloat \<Rightarrow> pyexc + int" where
  "py_int (Finite x) = Inr (if 0 \<le> x then \<lfloor>x\<rfloor> else \<lceil>x\<rceil>)"
| "py_int PosInf = Inl OverflowError"
| "py_int NegInf = Inl OverflowError"
| "py_int NaN = Inl (ValueError None)"

text \<open>\<open>round(x)\<close> with one argument: the nearest integer, ties to the even one.\<close>

fun py_round :: "pyfloat \<Rightarrow> pyexc + int" where
  "py_round (Finite x) = Inr (round_half_even x)"
| "py_round PosInf = Inl OverflowError"
| "py_round NegInf = Inl OverflowError"
| "py_round NaN = Inl (ValueError None)"

text \<open>
  The conversion of an \<open>int\<close> operand of a float operation: the nearest float, or
  \<open>OverflowError\<close> when the integer is beyond the range of the floats.
\<close>

definition float_of_int :: "int \<Rightarrow> pyexc + pyfloat" where
  "float_of_int n =
     (case to_double (of_int n) of Finite y \<Rightarrow> Inr (Finite y) | _ \<Rightarrow> Inl OverflowError)"

section \<open>The cardinal numbers of \<open>num2words\<close>\<close>

text \<open>
  \<^verbatim>\<open>num2words(n, lang="es")\<close> belongs to the package \<open>num2words\<close>, not to this
  program.  It is modelled by the Spanish cardinals that the package produces for an
  integer: the words up to 29, the tens joined by \<open>y\<close>, \<open>cien\<close> and \<open>ciento\<close>, the
  hundreds, \<open>mil\<close> without \<open>un\<close>, \<open>un millon\<close> and the plurals of the powers of a
  million, \<open>menos\<close> before a negative number, and \<open>OverflowError\<close> from
  \<open>10 ^ 27\<close> on.  The package does not shorten \<open>uno\<close> before a noun: 21000 is
  \<open>veintiuno mil\<close>.
\<close>

definition es_low :: "pystr list" where
  "es_low = [lit ''cero'', lit ''uno'', lit ''dos'', lit ''tres'', lit ''cuatro'', lit ''cinco'',
     lit ''seis'', lit ''siete'', lit ''ocho'', lit ''nueve'', lit ''diez'', lit ''once'',
     lit ''doce'', lit ''trece'', lit ''catorce'', lit ''quince'',
     lit ''diecis'' @ [233] @ lit ''is'', lit ''diecisiete'', lit ''dieciocho'',
     lit ''diecinueve'', lit ''veinte'', lit ''veintiuno'', lit ''veintid'' @ [243] @ lit ''s'',
     lit ''veintitr'' @ [233] @ lit ''s'', lit ''veinticuatro'', lit ''veinticinco'',
     lit ''veintis'' @ [233] @ lit ''is'', lit ''veintisiete'', lit ''veintiocho'',
     lit ''veintinueve'']"

definition es_tens :: "pystr list" where
  "es_tens = [[], [], [], lit ''treinta'', lit ''cuarenta'', lit ''cincuenta'', lit ''sesenta'',
     lit ''setenta'', lit ''ochenta'', lit ''noventa'']"

definition es_hundreds :: "pystr list" where
  "es_hundreds = [[], lit ''ciento'', lit ''doscientos'', lit ''trescientos'',
     lit ''cuatrocientos'', lit ''quinientos'', lit ''seiscientos'', lit ''setecientos'',
     lit ''ochocientos'', lit ''novecientos'']"

definition es_below_100 :: "nat \<Rightarrow> pystr" where
  "es_below_100 n =
     (if n < 30 then es_low ! n
      else es_tens ! (n div 10) @ (if n mod 10 = 0 then [] else lit '' y '' @ es_low ! (n mod 10)))"

definition es_below_1000 :: "nat \<Rightarrow> pystr" where
  "es_below_1000 n =
     (if n < 100 then es_below_100 n
      else if n = 100 then lit ''cien''
      else es_hundreds ! (n div 100)
             @ (if n mod 100 = 0 then [] else 32 # es_below_100 (n mod 100)))"

definition es_below_million :: "nat \<Rightarrow> pystr" where
  "es_below_million n =
     (if n < 1000 then es_below_1000 n
      else (if n div 1000 = 1 then lit ''mil'' else es_below_1000 (n div 1000) @ lit '' mil'')
             @ (if n mod 1000 = 0 then [] else 32 # es_below_1000 (n mod 1000)))"

text \<open>The powers of a million, greatest first, with the name of one and of several.\<close>

definition es_powers :: "(nat \<times> pystr \<times> pystr) list" where
  "es_powers =
     [(10 ^ 24, lit ''cuatrill'' @ [243] @ lit ''n'', lit ''cuatrillones''),
      (10 ^ 18, lit ''trill'' @ [243] @ lit ''n'', lit ''trillones''),
      (10 ^ 12, lit ''bill'' @ [243] @ lit ''n'', lit ''billones''),
      (10 ^ 6, lit ''mill'' @ [243] @ lit ''n'', lit ''millones'')]"

fun es_cardinal :: "(nat \<times> pystr \<times> pystr) list \<Rightarrow> nat \<Rightarrow> pystr" where
  "es_cardinal [] n = es_below_million n"
| "es_cardinal ((unit, one, several) # powers) n =
     (if n < unit then es_cardinal powers n
      else (if n div unit = 1 then lit ''un '' @ one
            else es_below_million (n div unit) @ 32 # several)
             @ (if n mod unit = 0 then [] else 32 # es_cardinal powers (n mod unit)))"

definition num2words_es :: "int \<Rightarrow> pyexc + pystr" where
  "num2words_es n =
     (if 10 ^ 27 \<le> \<bar>n\<bar> then Inl OverflowError
      else Inr ((if n < 0 then lit ''menos '' else []) @ es_cardinal es_powers (nat \<bar>n\<bar>)))"

section \<open>\<^verbatim>\<open>scripts/converter.py\<close>\<close>

text \<open>
  \<open>clean_num\<close>.  The test \<^verbatim>\<open>value in (None, "", " ")\<close> compares with \<open>==\<close>, which
  holds of \<open>None\<close> and of the two strings only.  \<open>value_str\<close> is the variable of
  that name once the symbols are removed and the result is stripped (lines 56 to 62).
  The result of \<open>clean_num\<close> is an exception, or \<open>None\<close>, or a float.
\<close>

definition value_str :: "pyval \<Rightarrow> pystr" where
  "value_str v = py_strip (strip_symbols CURRENCY_SYMBOLS (py_strip (py_str v)))"

definition clean_num :: "pyval \<Rightarrow> pyexc + pyfloat option" where
  "clean_num v =
     (if v = PNone \<or> v = PStr [] \<or> v = PStr (lit '' '') then Inr None
      else if value_str v = [] then Inr None
      else case py_float (value_str v) of
             Some x \<Rightarrow> Inr (Some x)
           | None \<Rightarrow> Inl (ValueError (Some v)))"

text \<open>
  A string is free of the symbols when none of them occurs in it.  The characters of the
  text of a number are not whitespace and are none of \<open>$\<close>, \<open>,\<close> and \<open>M\<close>.
\<close>

definition token_free :: "pystr \<Rightarrow> bool" where
  "token_free t \<longleftrightarrow> list_all (\<lambda>w. \<not> sublist w t) CURRENCY_SYMBOLS"


text \<open>
  Line 105, \<^verbatim>\<open>round((numero - parte_entera) * DECIMAL_PRECISION)\<close>: both integers are
  converted to floats, the difference and the product are rounded as floats.
\<close>

definition parte_decimal :: "pyfloat \<Rightarrow> int \<Rightarrow> pyexc + int" where
  "parte_decimal numero parte_entera =
     (case float_of_int parte_entera of
        Inl e \<Rightarrow> Inl e
      | Inr pe \<Rightarrow>
          (case float_of_int DECIMAL_PRECISION of
             Inl e \<Rightarrow> Inl e
           | Inr prec \<Rightarrow> py_round (fmul (fsub numero pe) prec)))"

text \<open>Lines 108 to 116: the cardinal in upper case, with UNO normalised.\<close>

definition texto_numero :: "int \<Rightarrow> pyexc + pystr" where
  "texto_numero parte_entera =
     (case num2words_es parte_entera of
        Inl e \<Rightarrow> Inl e
      | Inr words \<Rightarrow> Inr (normalize_uno (py_upper words)))"

text \<open>Line 119: the suffix with the cents.\<close>

definition sufijo_centavos :: "int \<Rightarrow> pystr" where
  "sufijo_centavos cents = format_02d cents @ lit ''/100 '' @ CURRENCY_SUFFIX"

text \<open>Lines 104 to 126: the body of the \<open>try\<close> once \<open>clean_num\<close> has given a float.\<close>

definition render_amount :: "pyfloat \<Rightarrow> pyexc + pystr" where
  "render_amount numero =
     (case py_int numero of
        Inl e \<Rightarrow> Inl e
      | Inr parte_entera \<Rightarrow>
          (case parte_decimal numero parte_entera of
             Inl e \<Rightarrow> Inl e
           | Inr cents \<Rightarrow>
               (case texto_numero parte_entera of
                  Inl e \<Rightarrow> Inl e
                | Inr texto \<Rightarrow>
                    Inr (if parte_entera = 1 then lit ''UN PESO '' @ sufijo_centavos cents
                         else texto @ lit '' PESOS '' @ sufijo_centavos cents))))"

text \<open>
  \<^verbatim>\<open>except (ValueError, TypeError, AttributeError)\<close>: the exceptions that the handler of
  \<open>numero_a_texto\<close> turns into the empty string.
\<close>

fun caught :: "pyexc \<Rightarrow> bool" where
  "caught (ValueError _) = True"
| "caught TypeError = True"
| "caught AttributeError = True"
| "caught OverflowError = False"

definition numero_a_texto :: "pyval \<Rightarrow> pyexc + pystr" where
  "numero_a_texto valor =
     (case (case clean_num valor of
              Inl e \<Rightarrow> Inl e
            | Inr None \<Rightarrow> Inr []
            | Inr (Some numero) \<Rightarrow> render_amount numero) of
        Inl e \<Rightarrow> if caught e then Inr [] else Inl e
      | Inr texto \<Rightarrow> Inr texto)"

text \<open>A float written in the source or held by a cell: the nearest float to a decimal.\<close>

definition float_literal :: "real \<Rightarrow> pyval" where
  "float_literal x = PFloat (to_double x)"

section \<open>\<^verbatim>\<open>scripts/excel_processor.py\<close>\<close>

definition COLUMN_ALIASES :: "pystr set" where
  "COLUMN_ALIASES = {lit ''numero'', lit ''num''}"

text \<open>\<open>normalize\<close> and \<open>find_num_column\<close>, with the library \<open>lib\<close> they call.\<close>

definition normalize :: "unicode_library \<Rightarrow> pyval \<Rightarrow> pystr" where
  "normalize lib text =
     (let text_str = py_str text;
          normalized = unicodedata_normalize lib NFKD text_str;
          without_accents = filter (\<lambda>c. unicodedata_combining lib c = 0) normalized
      in str_lower lib (re_sub_ws without_accents))"

text \<open>\<open>find_num_column\<close>, on the labels of \<open>df.columns\<close> in their order.\<close>

fun find_num_column :: "unicode_library \<Rightarrow> pyval list \<Rightarrow> pyval option" where
  "find_num_column lib [] = None"
| "find_num_column lib (column # columns) =
     (if normalize lib column \<in> COLUMN_ALIASES then Some column
      else find_num_column lib columns)"

text \<open>
  The key as the specification words it, for either decomposition: the label in the
  decomposed normal form, every combining mark discarded, all whitespace removed, the
  result in lower case.
\<close>

definition described_key :: "unicode_library \<Rightarrow> normal_form \<Rightarrow> pyval \<Rightarrow> pystr" where
  "described_key lib form label =
     str_lower lib (filter (\<lambda>c. \<not> isspace c)
       (filter (\<lambda>c. unicodedata_combining lib c = 0)
          (unicodedata_normalize lib form (py_str label))))"

text \<open>
  The library that the fragment gives, and the libraries that agree with it on the
  strings of the fragment, as the library of CPython with the data of Unicode 14 does.
\<close>

definition fragment_library :: unicode_library where
  "fragment_library =
     \<lparr>unicodedata_normalize = fragment_normalize, unicodedata_combining = fragment_combining,
      str_lower = fragment_lower\<rparr>"

definition agrees_on_fragment :: "unicode_library \<Rightarrow> bool" where
  "agrees_on_fragment lib \<longleftrightarrow>
     (\<forall>form s. list_all in_fragment s \<longrightarrow>
        unicodedata_normalize lib form s = fragment_normalize form s)
     \<and> (\<forall>c. in_fragment c \<longrightarrow> unicodedata_combining lib c = fragment_combining c)
     \<and> (\<forall>s. list_all in_fragment s \<longrightarrow> str_lower lib s = fragment_lower s)"



section \<open>Removing the currency symbols\<close>

lemma replace_scan_absent:
  "\<not> sublist old t \<Longrightarrow> replace_scan old new t = t"
proof (induction t)
  case Nil
  then show ?case by simp
next
  case (Cons c cs)
  from Cons.prems have np: "\<not> prefix old (c # cs)" and "\<not> sublist old cs"
    by (simp_all add: sublist_Cons_right)
  with Cons.IH show ?case by simp
qed

lemma replace_scan_single:
  "replace_scan [c] [] t = filter (\<lambda>x. x \<noteq> c) t"
  by (induction t) auto

lemma sublist_filter_keep:
  assumes "sublist tok t" and "\<forall>x \<in> set tok. P x"
  shows "sublist tok (filter P t)"
proof -
  from assms(1) obtain ps ss where "t = ps @ tok @ ss"
    by (auto simp: sublist_def)
  then have "filter P t = filter P ps @ tok @ filter P ss"
    using assms(2) by (simp add: filter_id_conv)
  then show ?thesis by (auto simp: sublist_def)
qed

lemma strip_symbols_Cons:
  "strip_symbols (tok # syms) t = strip_symbols syms (py_replace tok [] t)"
  by (simp add: strip_symbols_def)

lemma keep_after_single:
  "d = 36 \<or> d = 44 \<Longrightarrow> filter keep (filter (\<lambda>x. x \<noteq> d) t) = filter keep t"
  by (induction t) (auto simp: keep_def)

lemma word_not_in_text:
  assumes "w \<in> set word_symbols" and "symbol_words_absent t"
  shows "\<not> sublist w t"
proof
  assume s: "sublist w t"
  from assms(1) have "\<forall>x \<in> set w. keep x" by (auto simp: word_symbols_def keep_def)
  with s have "sublist w (filter keep t)" by (rule sublist_filter_keep)
  with assms show False by (simp add: symbol_words_absent_def list_all_iff)
qed

text \<open>
  A symbol word begins with its only \<open>M\<close>: no occurrence of it begins in a piece of
  text and ends in a word put after the piece, and where a word was put no other word
  occurs.
\<close>

lemma word_one_M: "w \<in> set word_symbols \<Longrightarrow> 77 \<notin> set (tl w) \<and> w \<noteq> []"
  by (auto simp: word_symbols_def)

lemma word_across:
  assumes "w \<in> set word_symbols" and "prefix w (p @ rest)" and "p \<noteq> []"
    and "rest = [] \<or> hd rest = 77"
  shows "prefix w p"
proof -
  from assms(2) consider "prefix w p" | us where "w = p @ us" "prefix us rest"
    by (auto simp: prefix_append)
  then show ?thesis
  proof cases
    case 1
    then show ?thesis .
  next
    case 2
    show ?thesis
    proof (cases us)
      case Nil
      with 2 show ?thesis by simp
    next
      case (Cons u us')
      with 2(2) assms(4) have "u = 77" by (cases rest) auto
      with 2(1) Cons assms(3) have "77 \<in> set (tl w)" by (cases p) auto
      with word_one_M[OF assms(1)] show ?thesis by simp
    qed
  qed
qed

lemma scan_past_text:
  assumes "w \<in> set word_symbols" and "rest = [] \<or> hd rest = 77"
  shows "\<not> sublist w a \<Longrightarrow> replace_scan w [] (a @ rest) = a @ replace_scan w [] rest"
proof (induction a)
  case Nil
  then show ?case by simp
next
  case (Cons c cs)
  from Cons.prems have np: "\<not> prefix w (c # cs)" and ns: "\<not> sublist w cs"
    by (simp_all add: sublist_Cons_right)
  have "\<not> prefix w ((c # cs) @ rest)"
    using word_across[OF assms(1) _ _ assms(2), of "c # cs"] np by blast
  with Cons.IH[OF ns] show ?case by simp
qed

lemma scan_word:
  "w \<in> set word_symbols \<Longrightarrow> t \<in> set word_symbols \<Longrightarrow>
   replace_scan w [] (t @ rest) = (if t = w then [] else t) @ replace_scan w [] rest"
  by (auto simp: word_symbols_def)

lemma weave_append: "weave (a @ b) r = a @ weave b r"
  by (cases r) auto

lemma flat_Cons: "flat a ((t, b) # r) = a @ flat b r"
  by (simp add: flat_def)

lemma del_word_append:
  "del_word w (a @ b) r = (a @ fst (del_word w b r), snd (del_word w b r))"
proof (induction r arbitrary: a b)
  case Nil
  then show ?case by simp
next
  case (Cons tb r)
  obtain t c where tb: "tb = (t, c)" by (cases tb)
  show ?case using Cons[of a "b @ c"] by (simp add: tb)
qed

lemma del_word_string:
  assumes "w \<in> set word_symbols"
  shows "list_all (\<lambda>(t, b). t \<in> set word_symbols) tas \<Longrightarrow> \<not> sublist w (flat a tas) \<Longrightarrow>
    replace_scan w [] (weave a tas) = weave (fst (del_word w a tas)) (snd (del_word w a tas))"
proof (induction tas arbitrary: a)
  case Nil
  then show ?case by (simp add: flat_def replace_scan_absent)
next
  case (Cons tb r)
  obtain t b where tb: "tb = (t, b)" by (cases tb)
  from Cons.prems(1) tb have t: "t \<in> set word_symbols"
    and r: "list_all (\<lambda>(t, b). t \<in> set word_symbols) r" by simp_all
  from Cons.prems(2) tb have "\<not> sublist w (a @ flat b r)" by (simp add: flat_Cons)
  then have a: "\<not> sublist w a" and b: "\<not> sublist w (flat b r)"
    by (simp_all add: sublist_append)
  from t have "hd (t @ weave b r) = 77" by (auto simp: word_symbols_def)
  then have "replace_scan w [] (a @ t @ weave b r) = a @ replace_scan w [] (t @ weave b r)"
    using scan_past_text[OF assms _ a, of "t @ weave b r"] by blast
  also have "\<dots> = a @ (if t = w then [] else t) @ replace_scan w [] (weave b r)"
    by (simp only: scan_word[OF assms t])
  also have "\<dots> = a @ (if t = w then [] else t)
      @ weave (fst (del_word w b r)) (snd (del_word w b r))"
    by (simp only: Cons.IH[OF r b])
  finally have e: "replace_scan w [] (weave a (tb # r))
      = a @ (if t = w then [] else t) @ weave (fst (del_word w b r)) (snd (del_word w b r))"
    by (simp add: tb)
  show ?case
  proof (cases "t = w")
    case True
    with e show ?thesis by (simp add: tb del_word_append weave_append)
  next
    case False
    with e show ?thesis by (simp add: tb)
  qed
qed

lemma del_word_flat:
  "flat (fst (del_word w a tas)) (snd (del_word w a tas)) = flat a tas"
proof (induction tas arbitrary: a)
  case Nil
  then show ?case by simp
next
  case (Cons tb r)
  obtain t b where tb: "tb = (t, b)" by (cases tb)
  show ?case using Cons[of "a @ b"] Cons[of b] by (simp add: tb flat_def)
qed

lemma del_word_words:
  "fst ` set (snd (del_word w a tas)) \<subseteq> fst ` set tas - {w}"
proof (induction tas arbitrary: a)
  case Nil
  then show ?case by simp
next
  case (Cons tb r)
  obtain t b where tb: "tb = (t, b)" by (cases tb)
  show ?case using Cons[of "a @ b"] Cons[of b] by (auto simp: tb)
qed

lemma words_iff:
  "list_all (\<lambda>(t, b). t \<in> set word_symbols) tas \<longleftrightarrow> fst ` set tas \<subseteq> set word_symbols"
  by (induction tas) auto

lemma filter_word: "t \<in> set word_symbols \<Longrightarrow> d = 36 \<or> d = 44 \<Longrightarrow> filter (\<lambda>x. x \<noteq> d) t = t"
  by (auto simp: word_symbols_def)

lemma del_char_string:
  assumes "d = 36 \<or> d = 44"
  shows "list_all (\<lambda>(t, b). t \<in> set word_symbols) tas \<Longrightarrow>
    filter (\<lambda>x. x \<noteq> d) (weave a tas) = weave (fst (del_char d a tas)) (snd (del_char d a tas))"
proof (induction tas arbitrary: a)
  case Nil
  then show ?case by (simp add: del_char_def)
next
  case (Cons tb r)
  obtain t b where tb: "tb = (t, b)" by (cases tb)
  from Cons.prems tb have t: "t \<in> set word_symbols"
    and r: "list_all (\<lambda>(t, b). t \<in> set word_symbols) r" by simp_all
  from Cons.IH[OF r] filter_word[OF t assms] show ?case by (simp add: tb del_char_def)
qed

lemma del_char_flat:
  "flat (fst (del_char d a tas)) (snd (del_char d a tas)) = filter (\<lambda>x. x \<noteq> d) (flat a tas)"
  by (induction tas arbitrary: a) (auto simp: del_char_def flat_def)

lemma del_char_words: "fst ` set (snd (del_char d a tas)) = fst ` set tas"
  by (force simp: del_char_def)

text \<open>The removal of one symbol, then of a list of symbols, from a woven text.\<close>

lemma remove_one:
  assumes "tok \<in> set CURRENCY_SYMBOLS" and "well_woven a tas"
  shows "\<exists>a' tas'. py_replace tok [] (weave a tas) = weave a' tas' \<and> well_woven a' tas'
    \<and> filter keep (flat a' tas') = filter keep (flat a tas)
    \<and> fst ` set tas' \<subseteq> fst ` set tas - {tok}
    \<and> set (flat a' tas') \<subseteq> set (flat a tas) - {c. tok = [c]}"
proof -
  from assms(2) have ws: "list_all (\<lambda>(t, b). t \<in> set word_symbols) tas"
    and ab: "symbol_words_absent (flat a tas)" by (simp_all add: well_woven_def)
  from assms(1) consider "tok \<in> set word_symbols" | d where "d = 36 \<or> d = 44" "tok = [d]"
    by (auto simp: CURRENCY_SYMBOLS_def word_symbols_def)
  then show ?thesis
  proof cases
    case 1
    then have ne: "tok \<noteq> []" and nc: "\<And>c. tok \<noteq> [c]" by (auto simp: word_symbols_def)
    let ?a = "fst (del_word tok a tas)" and ?r = "snd (del_word tok a tas)"
    have "\<not> sublist tok (flat a tas)" using 1 ab by (rule word_not_in_text)
    then have "py_replace tok [] (weave a tas) = weave ?a ?r"
      using del_word_string[OF 1 ws] ne by (simp add: py_replace_def)
    moreover have f: "flat ?a ?r = flat a tas" by (rule del_word_flat)
    moreover have w: "fst ` set ?r \<subseteq> fst ` set tas - {tok}" by (rule del_word_words)
    moreover have "well_woven ?a ?r"
      using w ws ab by (simp add: well_woven_def f words_iff) blast
    ultimately show ?thesis using nc by (intro exI[of _ ?a] exI[of _ ?r]) simp
  next
    case 2
    let ?a = "fst (del_char d a tas)" and ?r = "snd (del_char d a tas)"
    have "py_replace tok [] (weave a tas) = weave ?a ?r"
      using del_char_string[OF 2(1) ws] by (simp add: 2(2) py_replace_def replace_scan_single)
    moreover have f: "flat ?a ?r = filter (\<lambda>x. x \<noteq> d) (flat a tas)" by (rule del_char_flat)
    moreover have k: "filter keep (flat ?a ?r) = filter keep (flat a tas)"
      by (simp only: f keep_after_single[OF 2(1)])
    moreover have "well_woven ?a ?r"
      using ws ab by (simp add: well_woven_def words_iff del_char_words symbol_words_absent_def k)
    moreover have "fst ` set ?r \<subseteq> fst ` set tas - {tok}"
    proof -
      have "tok \<notin> fst ` set tas"
      proof
        assume "tok \<in> fst ` set tas"
        with ws have "tok \<in> set word_symbols" by (auto simp: words_iff)
        with 2 show False by (auto simp: word_symbols_def)
      qed
      then show ?thesis by (simp add: del_char_words)
    qed
    moreover have "set (flat ?a ?r) \<subseteq> set (flat a tas) - {c. tok = [c]}"
      by (auto simp: f 2(2))
    ultimately show ?thesis by (intro exI[of _ ?a] exI[of _ ?r]) simp
  qed
qed

lemma subset_empty: "A \<subseteq> W \<Longrightarrow> W \<subseteq> S \<Longrightarrow> A \<subseteq> B - S \<Longrightarrow> A = {}"
  by blast

lemma subset_chain: "B \<subseteq> A - X \<Longrightarrow> C \<subseteq> B - Y \<Longrightarrow> C \<subseteq> A - (X \<union> Y)"
  by blast

lemma remove_all:
  assumes "set syms \<subseteq> set CURRENCY_SYMBOLS" and "well_woven a tas"
  shows "\<exists>a' tas'. strip_symbols syms (weave a tas) = weave a' tas' \<and> well_woven a' tas'
    \<and> filter keep (flat a' tas') = filter keep (flat a tas)
    \<and> fst ` set tas' \<subseteq> fst ` set tas - set syms
    \<and> set (flat a' tas') \<subseteq> set (flat a tas) - {c. [c] \<in> set syms}"
  using assms
proof (induction syms arbitrary: a tas)
  case Nil
  then show ?case by (auto simp: strip_symbols_def)
next
  case (Cons tok syms)
  from Cons.prems have tok: "tok \<in> set CURRENCY_SYMBOLS" and sub: "set syms \<subseteq> set CURRENCY_SYMBOLS"
    by simp_all
  from remove_one[OF tok Cons.prems(2)] obtain a1 r1
    where 1: "py_replace tok [] (weave a tas) = weave a1 r1" and w1: "well_woven a1 r1"
      and k1: "filter keep (flat a1 r1) = filter keep (flat a tas)"
      and t1: "fst ` set r1 \<subseteq> fst ` set tas - {tok}"
      and c1: "set (flat a1 r1) \<subseteq> set (flat a tas) - {c. tok = [c]}" by blast
  from Cons.IH[OF sub w1] obtain a2 r2
    where 2: "strip_symbols syms (weave a1 r1) = weave a2 r2" and w2: "well_woven a2 r2"
      and k2: "filter keep (flat a2 r2) = filter keep (flat a1 r1)"
      and t2: "fst ` set r2 \<subseteq> fst ` set r1 - set syms"
      and c2: "set (flat a2 r2) \<subseteq> set (flat a1 r1) - {c. [c] \<in> set syms}" by blast
  have s: "strip_symbols (tok # syms) (weave a tas) = weave a2 r2"
    by (simp add: strip_symbols_Cons 1 2)
  from k1 k2 have k: "filter keep (flat a2 r2) = filter keep (flat a tas)" by simp
  have "{tok} \<union> set syms = set (tok # syms)" by simp
  with subset_chain[OF t1 t2] have t: "fst ` set r2 \<subseteq> fst ` set tas - set (tok # syms)"
    by simp
  have "{c. tok = [c]} \<union> {c. [c] \<in> set syms} = {c. [c] \<in> set (tok # syms)}" by auto
  with subset_chain[OF c1 c2]
  have c: "set (flat a2 r2) \<subseteq> set (flat a tas) - {c. [c] \<in> set (tok # syms)}" by simp
  from s w2 k t c show ?case by blast
qed

lemma strip_symbols_woven:
  assumes "set syms = set CURRENCY_SYMBOLS" and "well_woven a tas"
  shows "strip_symbols syms (weave a tas) = filter keep (flat a tas)"
proof -
  from assms(1) have "set syms \<subseteq> set CURRENCY_SYMBOLS" by simp
  from remove_all[OF this assms(2)] obtain a' r'
    where s: "strip_symbols syms (weave a tas) = weave a' r'" and w: "well_woven a' r'"
      and k: "filter keep (flat a' r') = filter keep (flat a tas)"
      and t: "fst ` set r' \<subseteq> fst ` set tas - set syms"
      and c: "set (flat a' r') \<subseteq> set (flat a tas) - {c. [c] \<in> set syms}" by blast
  have "fst ` set r' = {}"
  proof -
    from w have 1: "fst ` set r' \<subseteq> set word_symbols" by (simp add: well_woven_def words_iff)
    have "set word_symbols \<subseteq> set CURRENCY_SYMBOLS"
      by (simp add: word_symbols_def CURRENCY_SYMBOLS_def)
    then have 2: "set word_symbols \<subseteq> set syms" by (simp only: assms(1))
    from 1 2 t show ?thesis by (rule subset_empty)
  qed
  then have r: "r' = []" by simp
  have "[36] \<in> set CURRENCY_SYMBOLS" "[44] \<in> set CURRENCY_SYMBOLS"
    by (simp_all add: CURRENCY_SYMBOLS_def)
  then have "[36] \<in> set syms" "[44] \<in> set syms" by (simp_all only: assms(1))
  with c have "36 \<notin> set (flat a' r')" "44 \<notin> set (flat a' r')" by auto
  then have "filter keep (flat a' r') = flat a' r'" by (auto simp: keep_def filter_id_conv)
  with k s r show ?thesis by (simp add: flat_def)
qed

text \<open>
  Claim C3, as the code has it.  Take a text that, once its \<open>$\<close> and \<open>,\<close> are
  deleted, contains none of \<open>MXN\<close>, \<open>M.N.\<close> and \<open>MN\<close>, and put occurrences of these
  words into it, at any places.  Removing the five symbols of \<open>CURRENCY_SYMBOLS\<close> from
  the result, once each and in any order, gives what the order of the source gives:
  the text with every \<open>$\<close> and \<open>,\<close> deleted.
\<close>

theorem strip_symbols_order_independent:
  assumes "mset syms = mset CURRENCY_SYMBOLS" and "well_woven a tas"
  shows "strip_symbols syms (weave a tas) = strip_symbols CURRENCY_SYMBOLS (weave a tas)
    \<and> strip_symbols CURRENCY_SYMBOLS (weave a tas) = filter keep (flat a tas)"
proof -
  from assms(1) have "set syms = set CURRENCY_SYMBOLS" by (rule mset_eq_setD)
  then have "strip_symbols syms (weave a tas) = filter keep (flat a tas)"
    using assms(2) by (rule strip_symbols_woven)
  moreover have "strip_symbols CURRENCY_SYMBOLS (weave a tas) = filter keep (flat a tas)"
    using refl assms(2) by (rule strip_symbols_woven)
  ultimately show ?thesis by simp
qed

theorem strip_symbols_order_independent_witness:
  "mset [lit '','', lit ''MN'', lit ''$'', lit ''M.N.'', lit ''MXN''] = mset CURRENCY_SYMBOLS
   \<and> well_woven (lit ''$1,234.56 '') [(lit ''MXN'', lit '' M'')]
   \<and> weave (lit ''$1,234.56 '') [(lit ''MXN'', lit '' M'')] = lit ''$1,234.56 MXN M''
   \<and> strip_symbols [lit '','', lit ''MN'', lit ''$'', lit ''M.N.'', lit ''MXN''] (lit ''$1,234.56 MXN M'')
      = strip_symbols CURRENCY_SYMBOLS (lit ''$1,234.56 MXN M'')
   \<and> strip_symbols CURRENCY_SYMBOLS (lit ''$1,234.56 MXN M'') = lit ''1234.56  M''"
proof -
  have h1: "mset [lit '','', lit ''MN'', lit ''$'', lit ''M.N.'', lit ''MXN''] = mset CURRENCY_SYMBOLS"
    by (simp add: CURRENCY_SYMBOLS_def)
  have h2: "well_woven (lit ''$1,234.56 '') [(lit ''MXN'', lit '' M'')]"
    by (simp add: well_woven_def word_symbols_def symbol_words_absent_def flat_def keep_def
        sublist_Cons_right)
  have w: "weave (lit ''$1,234.56 '') [(lit ''MXN'', lit '' M'')] = lit ''$1,234.56 MXN M''" by simp
  have k: "filter keep (flat (lit ''$1,234.56 '') [(lit ''MXN'', lit '' M'')]) = lit ''1234.56  M''"
    by (simp add: keep_def flat_def)
  from strip_symbols_order_independent[OF h1 h2] h1 h2 w k show ?thesis by simp
qed

text \<open>
  Claim C3 as stated fails: on \<open>M,N\<close> the order of the source leaves \<open>MN\<close> (the comma
  goes last, after \<open>MN\<close> was looked for), while the order that starts with the comma
  removes everything.
\<close>

theorem strip_symbols_order_dependent:
  "mset [lit '','', lit ''$'', lit ''MXN'', lit ''M.N.'', lit ''MN''] = mset CURRENCY_SYMBOLS
   \<and> strip_symbols CURRENCY_SYMBOLS (lit ''M,N'') = lit ''MN''
   \<and> strip_symbols [lit '','', lit ''$'', lit ''MXN'', lit ''M.N.'', lit ''MN''] (lit ''M,N'') = []"
  by (simp add: strip_symbols_def CURRENCY_SYMBOLS_def py_replace_def)

section \<open>UNO becomes UN, word by word\<close>

lemma join_words_tail: "join_words (w # vs) = w @ tail_text vs"
  by (induction vs arbitrary: w) (auto simp: tail_text_def)

lemma join_words_Cons:
  "join_words (w # vs) = (if vs = [] then w else w @ 32 # join_words vs)"
  by (cases vs) simp_all

lemma shorten_but_last_Nil: "shorten_but_last ws = [] \<longleftrightarrow> ws = []"
  by (induction ws rule: shorten_but_last.induct) simp_all

lemma tail_text_Cons: "tail_text (v # vs) = 32 # v @ tail_text vs"
  by (simp add: tail_text_def)

lemma tail_text_Nil: "tail_text [] = []"
  by (simp add: tail_text_def)

lemma tail_text_starts: "tail_text vs = [] \<or> hd (tail_text vs) = 32"
  by (cases vs) (simp_all add: tail_text_def)

lemma replace_scan_no_match:
  "\<not> prefix old (c # cs) \<Longrightarrow> replace_scan old new (c # cs) = c # replace_scan old new cs"
  by simp

lemma replace_scan_match:
  "prefix old (c # cs) \<Longrightarrow>
   replace_scan old new (c # cs) = new @ replace_scan old new (drop (length old - 1) cs)"
  by simp

lemma scan_past_word:
  "32 \<notin> set w \<Longrightarrow> replace_scan (32 # tk) new (w @ rest) = w @ replace_scan (32 # tk) new rest"
  by (induction w) auto

lemma prefix_word_space:
  "32 \<notin> set v \<Longrightarrow> 32 \<notin> set p \<Longrightarrow> prefix (p @ [32]) (v @ 32 # t) \<longleftrightarrow> v = p"
proof (induction p arbitrary: v)
  case Nil
  then show ?case by (cases v) auto
next
  case (Cons a p)
  then show ?case by (cases v) auto
qed

lemma prefix_within_word:
  assumes "prefix p (v @ t)" and "32 \<notin> set p" and "t = [] \<or> hd t = 32"
  shows "prefix p v"
proof -
  from assms(1) consider "prefix p v" | us where "p = v @ us" "prefix us t"
    by (auto simp: prefix_append)
  then show ?thesis
  proof cases
    case 1
    then show ?thesis .
  next
    case 2
    show ?thesis
    proof (cases us)
      case Nil
      with 2 show ?thesis by simp
    next
      case (Cons a as)
      with 2 have "t \<noteq> []" "a = hd t" by (auto simp: prefix_def)
      with assms(3) have "a = 32" by simp
      with 2 Cons assms(2) show ?thesis by simp
    qed
  qed
qed

lemma drop_final_o_Cons:
  "c # cs \<noteq> lit ''UNO'' \<Longrightarrow> drop_final_o (c # cs) = c # drop_final_o cs"
  by (auto simp: drop_final_o_def suffix_Cons)

lemma drop_final_o_simps:
  "drop_final_o [] = []" "drop_final_o (lit ''UNO'') = lit ''UN''" "drop_final_o (lit ''UN'') = lit ''UN''"
  by (simp_all add: drop_final_o_def suffix_Cons)

lemma set_drop_final_o: "set (drop_final_o w) \<subseteq> set w"
  by (auto simp: drop_final_o_def dest: in_set_butlastD)

text \<open>The second replacement, \<open>UNO \<close> by \<open>UN \<close>.\<close>

lemma second_pass_word:
  "32 \<notin> set w \<Longrightarrow>
   replace_scan (lit ''UNO '') (lit ''UN '') (w @ 32 # rest)
     = drop_final_o w @ 32 # replace_scan (lit ''UNO '') (lit ''UN '') rest"
proof (induction w)
  case Nil
  then show ?case by (simp add: drop_final_o_simps)
next
  case (Cons c cs)
  have m: "prefix (lit ''UNO '') (c # cs @ 32 # rest) \<longleftrightarrow> c # cs = lit ''UNO''"
    using prefix_word_space[of "c # cs" "lit ''UNO''" rest] Cons.prems by simp
  show ?case
  proof (cases "c # cs = lit ''UNO''")
    case True
    then show ?thesis by (simp add: drop_final_o_def suffix_Cons)
  next
    case False
    with m have "\<not> prefix (lit ''UNO '') (c # cs @ 32 # rest)" by blast
    then have "replace_scan (lit ''UNO '') (lit ''UN '') (c # cs @ 32 # rest)
        = c # replace_scan (lit ''UNO '') (lit ''UN '') (cs @ 32 # rest)"
      by (rule replace_scan_no_match)
    also have "\<dots> = c # drop_final_o cs @ 32 # replace_scan (lit ''UNO '') (lit ''UN '') rest"
      using Cons by simp
    finally have "replace_scan (lit ''UNO '') (lit ''UN '') (c # cs @ 32 # rest)
        = c # drop_final_o cs @ 32 # replace_scan (lit ''UNO '') (lit ''UN '') rest" .
    then show ?thesis by (simp only: append_Cons drop_final_o_Cons[OF False])
  qed
qed

lemma second_pass_last:
  "32 \<notin> set w \<Longrightarrow> replace_scan (lit ''UNO '') (lit ''UN '') w = w"
proof (rule replace_scan_absent)
  assume a: "32 \<notin> set w"
  show "\<not> sublist (lit ''UNO '') w"
  proof
    assume "sublist (lit ''UNO '') w"
    then have "set (lit ''UNO '') \<subseteq> set w" by (rule set_mono_sublist)
    with a show False by simp
  qed
qed

lemma second_pass:
  "spaceless ws \<Longrightarrow>
   replace_scan (lit ''UNO '') (lit ''UN '') (join_words ws) = join_words (shorten_but_last ws)"
proof (induction ws rule: shorten_but_last.induct)
  case 1
  then show ?case by simp
next
  case (2 w)
  then show ?case using second_pass_last[of w] by (simp add: spaceless_def)
next
  case (3 w v vs)
  then show ?case using second_pass_word[of w "join_words (v # vs)"]
    by (simp add: spaceless_def join_words_Cons shorten_but_last_Nil)
qed

text \<open>The third replacement, \<open> UNO\<close> by \<open> UN\<close>.\<close>

lemma third_pass_tail:
  "spaceless vs \<Longrightarrow>
   replace_scan (lit '' UNO'') (lit '' UN'') (tail_text vs) = tail_text (map drop_initial_o vs)"
proof (induction vs)
  case Nil
  then show ?case by (simp add: tail_text_def)
next
  case (Cons v vs)
  then have v: "32 \<notin> set v" and vs: "spaceless vs" by (simp_all add: spaceless_def)
  have past: "\<And>x. 32 \<notin> set x \<Longrightarrow>
      replace_scan (lit '' UNO'') (lit '' UN'') (x @ tail_text vs) = x @ tail_text (map drop_initial_o vs)"
    using scan_past_word[of _ "lit ''UNO''" "lit '' UN''" "tail_text vs"] Cons.IH[OF vs] by simp
  show ?case
  proof (cases "prefix (lit ''UNO'') v")
    case True
    then obtain v' where v': "v = lit ''UNO'' @ v'" by (auto simp: prefix_def)
    with v have "32 \<notin> set v'" by simp
    moreover have "drop_initial_o v = lit ''UN'' @ v'"
      by (simp add: drop_initial_o_def v')
    ultimately show ?thesis using past[of v']
      by (simp add: tail_text_Cons v')
  next
    case False
    have "\<not> prefix (lit ''UNO'') (v @ tail_text vs)"
    proof
      assume "prefix (lit ''UNO'') (v @ tail_text vs)"
      then have "prefix (lit ''UNO'') v"
        by (rule prefix_within_word) (simp, rule tail_text_starts)
      with False show False ..
    qed
    then have "\<not> prefix (lit '' UNO'') (32 # v @ tail_text vs)" by simp
    then have "replace_scan (lit '' UNO'') (lit '' UN'') (32 # v @ tail_text vs)
        = 32 # replace_scan (lit '' UNO'') (lit '' UN'') (v @ tail_text vs)"
      by (rule replace_scan_no_match)
    also have "\<dots> = 32 # v @ tail_text (map drop_initial_o vs)"
      using past[OF v] by simp
    finally have "replace_scan (lit '' UNO'') (lit '' UN'') (32 # v @ tail_text vs)
        = 32 # v @ tail_text (map drop_initial_o vs)" .
    moreover from False have "drop_initial_o v = v" by (simp only: drop_initial_o_def if_False)
    ultimately show ?thesis by (simp only: tail_text_Cons list.map)
  qed
qed

lemma third_pass:
  "spaceless (w # vs) \<Longrightarrow>
   replace_scan (lit '' UNO'') (lit '' UN'') (join_words (w # vs))
     = join_words (w # map drop_initial_o vs)"
  using scan_past_word[of w "lit ''UNO''" "lit '' UN''" "tail_text vs"] third_pass_tail[of vs]
  by (simp add: join_words_tail spaceless_def)

text \<open>The first replacement, \<open> UNO \<close> by \<open> UN \<close>.\<close>

lemma first_pass_tail:
  "spaceless vs \<Longrightarrow>
   replace_scan (lit '' UNO '') (lit '' UN '') (tail_text vs) = tail_text (inner_uno vs)"
proof (induction vs rule: inner_uno.induct)
  case 1
  then show ?case by (simp add: tail_text_def)
next
  case (2 v)
  then have v: "32 \<notin> set v" by (simp add: spaceless_def)
  have "\<not> prefix (lit ''UNO '') v"
  proof
    assume "prefix (lit ''UNO '') v"
    then have "set (lit ''UNO '') \<subseteq> set v" by (rule set_mono_prefix)
    with v show False by simp
  qed
  then have "\<not> prefix (lit '' UNO '') (32 # v)" by simp
  then have "replace_scan (lit '' UNO '') (lit '' UN '') (32 # v)
      = 32 # replace_scan (lit '' UNO '') (lit '' UN '') v"
    by (rule replace_scan_no_match)
  also have "\<dots> = 32 # v"
    using scan_past_word[of v "lit ''UNO ''" "lit '' UN ''" "[]"] v by simp
  finally show ?case by (simp add: tail_text_def)
next
  case (3 v u us)
  then have v: "32 \<notin> set v" and u: "32 \<notin> set u" and us: "spaceless us" and uus: "spaceless (u # us)"
    by (simp_all add: spaceless_def)
  have m: "prefix (lit ''UNO '') (v @ 32 # u @ tail_text us) \<longleftrightarrow> v = lit ''UNO''"
    using prefix_word_space[of v "lit ''UNO''" "u @ tail_text us"] v by simp
  show ?case
  proof (cases "v = lit ''UNO''")
    case True
    have "replace_scan (lit '' UNO '') (lit '' UN '') (u @ tail_text us) = u @ tail_text (inner_uno us)"
      using scan_past_word[of u "lit ''UNO ''" "lit '' UN ''" "tail_text us"] u "3.IH"(1)[OF True us]
      by simp
    with True show ?thesis by (simp add: tail_text_Cons)
  next
    case False
    with m have "\<not> prefix (lit '' UNO '') (32 # v @ 32 # u @ tail_text us)" by simp
    then have "replace_scan (lit '' UNO '') (lit '' UN '') (32 # v @ 32 # u @ tail_text us)
        = 32 # replace_scan (lit '' UNO '') (lit '' UN '') (v @ 32 # u @ tail_text us)"
      by (rule replace_scan_no_match)
    also have "\<dots> = 32 # v @ replace_scan (lit '' UNO '') (lit '' UN '') (tail_text (u # us))"
      using scan_past_word[of v "lit ''UNO ''" "lit '' UN ''" "tail_text (u # us)"] v
      by (simp add: tail_text_Cons)
    also have "\<dots> = 32 # v @ tail_text (inner_uno (u # us))"
      using "3.IH"(2)[OF False uus] by simp
    finally have "replace_scan (lit '' UNO '') (lit '' UN '') (32 # v @ 32 # u @ tail_text us)
        = 32 # v @ tail_text (inner_uno (u # us))" .
    moreover from False have "inner_uno (v # u # us) = v # inner_uno (u # us)"
      by (simp only: inner_uno.simps if_False)
    ultimately show ?thesis by (simp only: tail_text_Cons)
  qed
qed

lemma first_pass:
  "spaceless (w # vs) \<Longrightarrow>
   replace_scan (lit '' UNO '') (lit '' UN '') (join_words (w # vs)) = join_words (w # inner_uno vs)"
  using scan_past_word[of w "lit ''UNO ''" "lit '' UN ''" "tail_text vs"] first_pass_tail[of vs]
  by (simp add: join_words_tail spaceless_def)

text \<open>The three replacements together.\<close>

lemma spaceless_inner_uno: "spaceless vs \<Longrightarrow> spaceless (inner_uno vs)"
  by (induction vs rule: inner_uno.induct) (auto simp: spaceless_def)

lemma spaceless_shorten: "spaceless ws \<Longrightarrow> spaceless (shorten_but_last ws)"
  using set_drop_final_o by (induction ws rule: shorten_but_last.induct) (auto simp: spaceless_def)

lemma shorten_inner_uno:
  "shorten_but_last (x # inner_uno vs) = shorten_but_last (x # vs)"
proof (induction vs arbitrary: x rule: inner_uno.induct)
  case 1
  then show ?case by simp
next
  case (2 v)
  then show ?case by simp
next
  case (3 v u us)
  show ?case
  proof (cases "v = lit ''UNO''")
    case True
    with "3.IH"(1)[OF True, of u] show ?thesis
      using drop_final_o_simps by simp
  next
    case False
    with "3.IH"(2)[OF False, of v] show ?thesis by simp
  qed
qed

lemma uno_tail_shorten: "vs \<noteq> [] \<Longrightarrow> uno_tail vs = map drop_initial_o (shorten_but_last vs)"
  by (induction vs rule: uno_tail.induct) auto

lemma shorten_but_last_Cons:
  "shorten_but_last (w # vs) = (if vs = [] then [w] else drop_final_o w # shorten_but_last vs)"
  by (cases vs) auto

text \<open>
  Claim C5, as the code has it.  In a text of words separated by single spaces, the
  three replacements take the final O off every word that ends in UNO and is followed by
  another word, and the O off every word that begins with UNO and follows another word.
  So a word UNO becomes UN unless it is the whole text; a compound such as VEINTIUNO
  becomes VEINTIUN when a word follows it, and stays as it is at the end of the text.
\<close>

theorem normalize_uno_words:
  assumes "spaceless ws"
  shows "normalize_uno (join_words ws) = join_words (uno_words ws)"
proof (cases ws)
  case Nil
  then show ?thesis by (simp add: normalize_uno_def py_replace_def)
next
  case (Cons w vs)
  with assms have sp: "spaceless (w # vs)" by simp
  then have sp1: "spaceless (w # inner_uno vs)"
    using spaceless_inner_uno[of vs] by (simp add: spaceless_def)
  then have sp2: "spaceless (shorten_but_last (w # inner_uno vs))"
    by (rule spaceless_shorten)
  have s2: "shorten_but_last (w # inner_uno vs) = shorten_but_last (w # vs)"
    by (rule shorten_inner_uno)
  have "py_replace (lit '' UNO '') (lit '' UN '') (join_words ws) = join_words (w # inner_uno vs)"
    using first_pass[OF sp] Cons by (simp add: py_replace_def)
  moreover have "py_replace (lit ''UNO '') (lit ''UN '') (join_words (w # inner_uno vs))
      = join_words (shorten_but_last (w # vs))"
    using second_pass[OF sp1] s2 by (simp add: py_replace_def)
  moreover have "py_replace (lit '' UNO'') (lit '' UN'') (join_words (shorten_but_last (w # vs)))
      = join_words (uno_words (w # vs))"
  proof (cases vs)
    case Nil
    then show ?thesis using third_pass[of w "[]"] sp by (simp add: py_replace_def)
  next
    case (Cons v us)
    have "spaceless (drop_final_o w # shorten_but_last (v # us))"
      using sp2 s2 Cons by simp
    from third_pass[OF this] show ?thesis
      using Cons uno_tail_shorten[of "v # us"] by (simp add: py_replace_def)
  qed
  ultimately show ?thesis using Cons by (simp add: normalize_uno_def)
qed

theorem normalize_uno_words_witness:
  "spaceless [lit ''CIENTO'', lit ''VEINTIUNO'', lit ''MIL'', lit ''UNO'']
   \<and> normalize_uno (lit ''CIENTO VEINTIUNO MIL UNO'') = lit ''CIENTO VEINTIUN MIL UN''"
proof -
  have h: "spaceless [lit ''CIENTO'', lit ''VEINTIUNO'', lit ''MIL'', lit ''UNO'']"
    by (simp add: spaceless_def)
  from normalize_uno_words[OF h] h show ?thesis
    by (simp add: drop_final_o_def drop_initial_o_def suffix_Cons)
qed

section \<open>Evaluation\<close>

text \<open>
  The recursive equations of \<open>ilog_up\<close>, \<open>ilog_down\<close> and \<open>digits\<close> as conditional
  rules, which the simplifier can apply to a concrete argument without unfolding for
  ever, and the definitions that a concrete conversion unfolds.
\<close>

lemma ilog_up_stop: "x < real b \<Longrightarrow> ilog_up b x = 0"
  by (subst ilog_up.simps) simp

lemma ilog_up_step:
  "2 \<le> b \<Longrightarrow> real b \<le> x \<Longrightarrow> ilog_up b x = 1 + ilog_up b (x / real b)"
  by (subst ilog_up.simps) simp

lemma ilog_down_stop: "1 \<le> x \<Longrightarrow> ilog_down b x = 0"
  by (subst ilog_down.simps) simp

lemma ilog_down_step:
  "2 \<le> b \<Longrightarrow> 0 < x \<Longrightarrow> x < 1 \<Longrightarrow> ilog_down b x = ilog_down b (x * real b) - 1"
  by (subst ilog_down.simps) simp

lemma digits_stop: "n < 10 \<Longrightarrow> digits n = [48 + n]"
  by (subst digits.simps) simp

lemma digits_step: "10 \<le> n \<Longrightarrow> digits n = digits (n div 10) @ [48 + n mod 10]"
  by (subst digits.simps) simp

lemmas ilog_eval = ilog_def ilog_up_stop ilog_up_step ilog_down_stop ilog_down_step

lemmas float_eval = to_double_def ilog_eval ipow_def round_half_even_def Let_def

lemmas digits_eval = digits_stop digits_step

lemmas parse_eval = py_float_def to_ascii_def parse_float_ascii_def parse_decimal_def strip_ends_def
  parse_exponent_def is_digit_def ascii_strip_def ascii_space_def ascii_lower_def
  after_sign_def is_negative_def digits_value_def

lemmas repr_eval = repr_finite_def shortest_digits_def reads_back_def repr_candidates_def
  nearest_first_def
  format_repr_def strip_trailing_zeros_def two_digits_def

lemmas words_eval = num2words_es_def es_powers_def es_below_million_def es_below_1000_def
  es_below_100_def es_low_def es_tens_def es_hundreds_def py_upper_def upper_char_def
  normalize_uno_def py_replace_def

lemmas clean_eval = clean_num_def value_str_def py_strip_def strip_ends_def isspace_def strip_symbols_def
  CURRENCY_SYMBOLS_def str_int_def

lemmas render_eval = numero_a_texto_def render_amount_def parte_decimal_def texto_numero_def
  sufijo_centavos_def format_02d_def float_of_int_def DECIMAL_PRECISION_def
  CURRENCY_SUFFIX_def

lemmas all_eval = float_literal_def render_eval clean_eval parse_eval float_eval repr_eval
  digits_eval words_eval

section \<open>The reference conversions\<close>

lemma render_one: "numero_a_texto (PInt 1) = Inr (lit ''UN PESO 00/100 M.N.'')"
  by (simp add: all_eval)

lemma render_zero: "numero_a_texto (PInt 0) = Inr (lit ''CERO PESOS 00/100 M.N.'')"
  by (simp add: all_eval)

lemma render_1523_45:
  "numero_a_texto (float_literal (152345 / 100))
     = Inr (lit ''MIL QUINIENTOS VEINTITR'' @ [201] @ lit ''S PESOS 45/100 M.N.'')"
  by (simp add: all_eval)

lemma render_no_value:
  "numero_a_texto (PStr []) = Inr []" "numero_a_texto PNone = Inr []"
  "numero_a_texto (PStr (lit ''   '')) = Inr []"
  by (simp_all add: all_eval)

text \<open>
  Claim C7.  The conversions that the specification gives as reference: 1 is
  \<open>UN PESO 00/100 M.N.\<close>, 0 is \<open>CERO PESOS 00/100 M.N.\<close>, the float 1523.45 is
  \<open>MIL QUINIENTOS VEINTITRES PESOS 45/100 M.N.\<close> with an acute accent on the last E
  (code point 201), and the empty string, \<open>None\<close> and three spaces give the empty
  string.
\<close>

theorem reference_conversions:
  "numero_a_texto (PInt 1) = Inr (lit ''UN PESO 00/100 M.N.'')
   \<and> numero_a_texto (PInt 0) = Inr (lit ''CERO PESOS 00/100 M.N.'')
   \<and> numero_a_texto (float_literal (152345 / 100))
       = Inr (lit ''MIL QUINIENTOS VEINTITR'' @ [201] @ lit ''S PESOS 45/100 M.N.'')
   \<and> numero_a_texto (PStr []) = Inr []
   \<and> numero_a_texto PNone = Inr []
   \<and> numero_a_texto (PStr (lit ''   '')) = Inr []"
  using render_one render_zero render_1523_45 render_no_value by blast

text \<open>
  Claim C2 fails on the string \<open>inf\<close>: \<open>float\<close> reads it as an infinity, \<open>int\<close> of
  an infinity raises \<open>OverflowError\<close>, and the handler of \<open>numero_a_texto\<close> does not
  catch that exception.  The same happens from \<open>1e27\<close> on, where \<open>num2words\<close> raises
  it.
\<close>

theorem overflow_error_escapes:
  "numero_a_texto (PStr (lit ''inf'')) = Inl OverflowError
   \<and> numero_a_texto (PStr (lit ''1e27'')) = Inl OverflowError"
  by (simp add: all_eval)

text \<open>
  Claim C1 fails at \<open>1.999\<close> and at \<open>-1.5\<close>.  The cents are
  \<open>round((numero - parte_entera) * 100)\<close>, written with the format \<open>02d\<close> before
  \<open>/100\<close>: the fraction of 1.999 rounds to 100 and is not carried into the pesos, and
  the fraction of -1.5 keeps the sign of the amount.
\<close>

theorem cents_out_of_range:
  "numero_a_texto (PStr (lit ''1.999'')) = Inr (lit ''UN PESO 100/100 M.N.'')
   \<and> numero_a_texto (PStr (lit ''-1.5'')) = Inr (lit ''MENOS UN PESOS -50/100 M.N.'')"
  by (simp add: all_eval)

text \<open>
  Claim C5 as stated fails twice.  The cardinal of 1 is the text UNO, where the word
  stands at the start and at the end of the string, and it is left as it is.  The
  cardinal of 21000 is VEINTIUNO MIL, and there the compound loses its O, while at the
  end of a text it keeps it.
\<close>

theorem normalize_uno_not_whole_word:
  "normalize_uno (lit ''UNO'') = lit ''UNO''
   \<and> texto_numero 1 = Inr (lit ''UNO'')
   \<and> normalize_uno (lit ''VEINTIUNO MIL'') = lit ''VEINTIUN MIL''
   \<and> texto_numero 21000 = Inr (lit ''VEINTIUN MIL'')
   \<and> texto_numero 21 = Inr (lit ''VEINTIUNO'')"
  by (simp add: texto_numero_def words_eval)

section \<open>The column of numbers\<close>

lemma filter_not_dropWhile:
  "filter (\<lambda>x. \<not> P x) (dropWhile P xs) = filter (\<lambda>x. \<not> P x) xs"
  by (induction xs) auto

lemma re_sub_ws_filter: "re_sub_ws s = filter (\<lambda>c. \<not> isspace c) s"
  by (induction s rule: re_sub_ws.induct) (auto simp: filter_not_dropWhile)

lemma normalize_described: "normalize lib label = described_key lib NFKD label"
  by (simp only: normalize_def described_key_def Let_def re_sub_ws_filter)





lemmas unicode_eval = normalize_def described_key_def fragment_library_def
  fragment_normalize_def canonical_order_def
  fragment_decompose_def decomposition_table_def fragment_combining_def combining_ranges_def
  fragment_lower_def fragment_lower_char_def isspace_def COLUMN_ALIASES_def

lemma normalize_examples:
  "normalize fragment_library (PStr (lit ''N'' @ [250] @ lit ''mero'')) = lit ''numero''"
  "normalize fragment_library (PStr (lit ''  Num  '')) = lit ''num''"
  "normalize fragment_library (PStr (lit ''Fecha'')) = lit ''fecha''"
  "normalize fragment_library (PStr (lit ''Monto'')) = lit ''monto''"
  by (simp_all add: unicode_eval)

text \<open>
  Claim C9.  When \<open>find_num_column\<close> returns a label, it is one of the labels it
  was given, as it stands there; whatever the library computes.
\<close>

theorem find_num_column_verbatim:
  "find_num_column lib columns = Some label \<Longrightarrow> label \<in> set columns"
  by (induction columns) (auto split: if_splits)

theorem find_num_column_verbatim_witness:
  "find_num_column fragment_library [PStr (lit ''Fecha''), PStr (lit ''  Num  '')]
     = Some (PStr (lit ''  Num  ''))
   \<and> PStr (lit ''  Num  '') \<in> set [PStr (lit ''Fecha''), PStr (lit ''  Num  '')]"
proof -
  have h: "find_num_column fragment_library [PStr (lit ''Fecha''), PStr (lit ''  Num  '')]
      = Some (PStr (lit ''  Num  ''))"
    using normalize_examples(2,3) by (simp add: COLUMN_ALIASES_def)
  from find_num_column_verbatim[OF h] h show ?thesis by blast
qed

lemma find_num_column_find:
  "find_num_column lib columns = find (\<lambda>l. normalize lib l \<in> COLUMN_ALIASES) columns"
  by (induction columns) auto

lemma find_num_column_None:
  "find_num_column lib columns = None
     \<longleftrightarrow> list_all (\<lambda>l. normalize lib l \<notin> COLUMN_ALIASES) columns"
  by (induction columns) auto

lemma find_num_column_Some:
  "find_num_column lib columns = Some label \<longleftrightarrow>
     (\<exists>before after. columns = before @ label # after \<and> normalize lib label \<in> COLUMN_ALIASES
        \<and> list_all (\<lambda>l. normalize lib l \<notin> COLUMN_ALIASES) before)"
  (is "?L columns \<longleftrightarrow> ?R columns")
proof (induction columns)
  case Nil
  then show ?case by simp
next
  case (Cons c cs)
  show ?case
  proof (cases "normalize lib c \<in> COLUMN_ALIASES")
    case True
    have "?R (c # cs) \<longleftrightarrow> c = label"
    proof
      assume "?R (c # cs)"
      then obtain before after where e: "c # cs = before @ label # after"
        and b: "list_all (\<lambda>l. normalize lib l \<notin> COLUMN_ALIASES) before" by blast
      show "c = label"
      proof (cases before)
        case Nil
        with e show ?thesis by simp
      next
        case (Cons x xs)
        with e b True show ?thesis by simp
      qed
    next
      assume "c = label"
      with True have "c # cs = [] @ label # cs \<and> normalize lib label \<in> COLUMN_ALIASES
        \<and> list_all (\<lambda>l. normalize lib l \<notin> COLUMN_ALIASES) []" by simp
      then show "?R (c # cs)" by blast
    qed
    with True show ?thesis by simp
  next
    case False
    have "?R (c # cs) \<longleftrightarrow> ?R cs"
    proof
      assume "?R (c # cs)"
      then obtain before after where e: "c # cs = before @ label # after"
        and l: "normalize lib label \<in> COLUMN_ALIASES"
        and b: "list_all (\<lambda>l. normalize lib l \<notin> COLUMN_ALIASES) before" by blast
      from e l False obtain xs where x: "before = c # xs"
        by (cases before) auto
      with e b have "cs = xs @ label # after
        \<and> list_all (\<lambda>l. normalize lib l \<notin> COLUMN_ALIASES) xs" by simp
      with l show "?R cs" by blast
    next
      assume "?R cs"
      then obtain before after where e: "cs = before @ label # after"
        and l: "normalize lib label \<in> COLUMN_ALIASES"
        and b: "list_all (\<lambda>l. normalize lib l \<notin> COLUMN_ALIASES) before" by blast
      with False have "c # cs = (c # before) @ label # after
        \<and> list_all (\<lambda>l. normalize lib l \<notin> COLUMN_ALIASES) (c # before)" by simp
      with l show "?R (c # cs)" by blast
    qed
    with False Cons.IH show ?thesis by simp
  qed
qed

text \<open>
  Claim C4, as the code has it.  The key of a label is its compatibility decomposition
  (the normal form NFKD of the library, not the canonical one) with every combining
  mark discarded, all whitespace removed, in lower case.  \<open>find_num_column\<close> returns
  the first label, in the order of the columns, whose key is \<open>numero\<close> or \<open>num\<close>: the
  labels before it have other keys; and it returns none exactly when no label has such
  a key.  This holds whatever the library computes, for every list of labels.
\<close>

theorem find_num_column_first_match:
  "find_num_column lib columns
     = find (\<lambda>l. described_key lib NFKD l \<in> COLUMN_ALIASES) columns
   \<and> (find_num_column lib columns = None
        \<longleftrightarrow> list_all (\<lambda>l. described_key lib NFKD l \<notin> COLUMN_ALIASES) columns)
   \<and> (find_num_column lib columns = Some label
        \<longleftrightarrow> (\<exists>before after. columns = before @ label # after
               \<and> described_key lib NFKD label \<in> COLUMN_ALIASES
               \<and> list_all (\<lambda>l. described_key lib NFKD l \<notin> COLUMN_ALIASES) before))"
  using find_num_column_find[of lib columns] find_num_column_None[of lib columns]
    find_num_column_Some[of lib columns label]
  by (simp only: normalize_described)

text \<open>
  Claim C4 as stated fails: the label \<open>num\<close> written in full-width letters
  (U+FF4E U+FF55 U+FF4D) is returned, although its key under the canonical decomposition
  is the label itself, which is not an alias.
\<close>

theorem full_width_label_found:
  "find_num_column fragment_library [PStr [65358, 65365, 65357]]
     = Some (PStr [65358, 65365, 65357])
   \<and> described_key fragment_library NFD (PStr [65358, 65365, 65357]) = [65358, 65365, 65357]
   \<and> described_key fragment_library NFD (PStr [65358, 65365, 65357]) \<notin> COLUMN_ALIASES
   \<and> described_key fragment_library NFKD (PStr [65358, 65365, 65357]) = lit ''num''"
  by (simp add: unicode_eval)

section \<open>\<open>normalize\<close> applied twice\<close>








lemma table_outputs:
  "list_all (\<lambda>ds. list_all (\<lambda>e. (33 \<le> e \<and> e \<le> 126) \<or> e = 32 \<or> e = 956 \<or> e = 8260
       \<or> e \<in> {768, 769, 770, 771, 772, 776, 778, 787, 807}) ds)
     (map (snd \<circ> snd) decomposition_table)"
  by (simp add: decomposition_table_def)












text \<open>
  The fragment is closed under decomposition: on a string of the fragment, a library
  that agrees with the fragment computes the key that the fragment gives.
\<close>

lemma decompose_other_form:
  "\<not> (65281 \<le> c \<and> c \<le> 65374) \<Longrightarrow>
   fragment_decompose form c
     = (case map_of decomposition_table c of
          None \<Rightarrow> [c]
        | Some (k, ds) \<Rightarrow> if k \<and> form = NFD then [c] else ds)"
  by (auto simp: fragment_decompose_def split: option.splits)

lemma decompose_in_fragment:
  assumes "in_fragment c"
  shows "list_all in_fragment (fragment_decompose form c)"
proof (cases "65281 \<le> c \<and> c \<le> 65374")
  case True
  then have "c - 65248 < 256" by linarith
  with True show ?thesis by (simp add: fragment_decompose_def in_fragment_def)
next
  case nfw: False
  show ?thesis
  proof (cases "map_of decomposition_table c")
    case None
    with assms show ?thesis by (simp add: decompose_other_form[OF nfw])
  next
    case (Some kd)
    obtain k ds where kd: "kd = (k, ds)" by (cases kd)
    with Some have "(c, k, ds) \<in> set decomposition_table" by (simp add: map_of_SomeD)
    then have "ds \<in> set (map (snd \<circ> snd) decomposition_table)" by force
    then have "list_all (\<lambda>e. (33 \<le> e \<and> e \<le> 126) \<or> e = 32 \<or> e = 956 \<or> e = 8260
       \<or> e \<in> {768, 769, 770, 771, 772, 776, 778, 787, 807}) ds"
      using table_outputs by (simp only: list_all_iff) blast
    then have "list_all in_fragment ds"
      by (rule list.pred_mono_strong) (auto simp: in_fragment_def)
    with Some kd assms show ?thesis by (simp add: decompose_other_form[OF nfw])
  qed
qed

lemma bubble_set: "set (bubble c acc) = insert c (set acc)"
  by (induction acc) auto

lemma canonical_order_set: "set (canonical_order s) = set s"
proof -
  have "set (foldl (\<lambda>acc c. bubble c acc) acc s) = set acc \<union> set s" for acc
    by (induction s arbitrary: acc) (simp_all add: bubble_set)
  then show ?thesis by (simp add: canonical_order_def)
qed

lemma normalize_in_fragment:
  assumes "list_all in_fragment s"
  shows "list_all in_fragment (fragment_normalize form s)"
proof -
  have "list_all in_fragment (concat (map (fragment_decompose form) s))"
    using assms decompose_in_fragment by (induction s) simp_all
  then show ?thesis by (simp add: fragment_normalize_def list_all_iff canonical_order_set)
qed

lemma agrees_key:
  assumes "agrees_on_fragment lib" and "list_all in_fragment (py_str v)"
  shows "described_key lib form v = described_key fragment_library form v"
proof -
  let ?n = "fragment_normalize form (py_str v)"
  from assms have n: "unicodedata_normalize lib form (py_str v) = ?n"
    by (simp add: agrees_on_fragment_def)
  have fn: "list_all in_fragment ?n" using assms(2) by (rule normalize_in_fragment)
  with assms(1) have f: "filter (\<lambda>c. unicodedata_combining lib c = 0) ?n
      = filter (\<lambda>c. fragment_combining c = 0) ?n"
    by (intro filter_cong) (simp_all add: agrees_on_fragment_def list_all_iff)
  let ?w = "filter (\<lambda>c. \<not> isspace c) (filter (\<lambda>c. fragment_combining c = 0) ?n)"
  from fn have "list_all in_fragment ?w" by (simp add: list_all_iff)
  with assms(1) have "str_lower lib ?w = fragment_lower ?w" by (simp add: agrees_on_fragment_def)
  with n f show ?thesis by (simp add: described_key_def fragment_library_def)
qed



text \<open>
  The label \<open>num\<close> in full-width letters is found by every library that agrees with
  the fragment.
\<close>

lemma full_width_label_any_library:
  assumes "agrees_on_fragment lib"
  shows "find_num_column lib [PStr [65358, 65365, 65357]] = Some (PStr [65358, 65365, 65357])
    \<and> described_key lib NFD (PStr [65358, 65365, 65357]) \<notin> COLUMN_ALIASES"
proof -
  have f: "list_all in_fragment (py_str (PStr [65358, 65365, 65357]))"
    by (simp add: in_fragment_def)
  have "described_key fragment_library NFD (PStr [65358, 65365, 65357]) \<notin> COLUMN_ALIASES"
    "described_key fragment_library NFKD (PStr [65358, 65365, 65357]) \<in> COLUMN_ALIASES"
    by (simp_all add: unicode_eval)
  then show ?thesis
    by (simp add: normalize_described agrees_key[OF assms f])
qed



section \<open>The outcomes of \<open>clean_num\<close>\<close>




lemma strip_symbols_token_free:
  assumes "token_free t"
  shows "strip_symbols CURRENCY_SYMBOLS t = t"
proof -
  have r: "py_replace w [] t = t" if "w \<in> set CURRENCY_SYMBOLS" for w
  proof -
    from that assms have "\<not> sublist w t" by (simp add: token_free_def list_all_iff)
    moreover from that have "w \<noteq> []" by (auto simp: CURRENCY_SYMBOLS_def)
    ultimately show ?thesis by (simp add: py_replace_def replace_scan_absent)
  qed
  have "foldl (\<lambda>v w. py_replace w [] v) t ws = t" if "set ws \<subseteq> set CURRENCY_SYMBOLS" for ws
    using that by (induction ws) (simp_all add: r)
  then show ?thesis by (simp add: strip_symbols_def)
qed













section \<open>Cleaning a value that has no symbol\<close>

lemma strip_ends_parts:
  "\<exists>l r. s = l @ strip_ends P s @ r \<and> list_all P l \<and> list_all P r"
proof -
  define d where "d = dropWhile P s"
  have "d = rev (takeWhile P (rev d) @ dropWhile P (rev d))"
    by (simp only: takeWhile_dropWhile_id rev_rev_ident)
  then have "d = rev (dropWhile P (rev d)) @ rev (takeWhile P (rev d))"
    by (simp only: rev_append)
  then have "d = strip_ends P s @ rev (takeWhile P (rev d))"
    by (simp only: strip_ends_def d_def)
  moreover have "s = takeWhile P s @ d" by (simp add: d_def)
  ultimately have "s = takeWhile P s @ strip_ends P s @ rev (takeWhile P (rev d))" by simp
  moreover have "list_all P (takeWhile P s)" "list_all P (rev (takeWhile P (rev d)))"
    by (auto simp: list_all_iff dest: set_takeWhileD)
  ultimately show ?thesis by blast
qed

lemma strip_ends_padded:
  assumes "list_all P w1" and "list_all P w2"
  shows "strip_ends P (w1 @ g @ w2) = strip_ends P g"
proof -
  have 1: "dropWhile P (w1 @ g @ w2) = dropWhile P (g @ w2)"
  proof (rule dropWhile_append2)
    fix x assume "x \<in> set w1"
    with assms(1) show "P x" by (simp add: list_all_iff)
  qed
  show ?thesis
  proof (cases "list_all P g")
    case True
    with assms(2) have "dropWhile P (g @ w2) = []" "dropWhile P g = []"
      by (simp_all add: list_all_iff)
    with 1 show ?thesis by (simp only: strip_ends_def)
  next
    case False
    then have "dropWhile P (g @ w2) = dropWhile P g @ w2"
      by (auto simp: list_all_iff)
    moreover have "dropWhile P (rev w2 @ rev (dropWhile P g)) = dropWhile P (rev (dropWhile P g))"
    proof (rule dropWhile_append2)
      fix x assume "x \<in> set (rev w2)"
      with assms(2) show "P x" by (simp add: list_all_iff)
    qed
    ultimately show ?thesis using 1 by (simp add: strip_ends_def)
  qed
qed

lemma strip_ends_ends:
  "strip_ends P s = [] \<or> (\<not> P (hd (strip_ends P s)) \<and> \<not> P (last (strip_ends P s)))"
proof (cases "strip_ends P s = []")
  case True
  then show ?thesis ..
next
  case False
  define d where "d = dropWhile P s"
  define b where "b = dropWhile P (rev d)"
  have t: "strip_ends P s = rev b" by (simp add: strip_ends_def b_def d_def)
  with False have b: "b \<noteq> []" by simp
  then have "\<not> P (hd b)" unfolding b_def by (rule hd_dropWhile)
  with b have l: "\<not> P (last (rev b))" by (simp add: last_rev)
  have "rev d = takeWhile P (rev d) @ b" by (simp add: b_def)
  with b have "last (rev d) = last b" by (metis last_appendR)
  moreover from b have "d \<noteq> []" by (auto simp: b_def)
  ultimately have "hd d = last b" by (simp add: last_rev)
  moreover from \<open>d \<noteq> []\<close> have "\<not> P (hd d)" unfolding d_def by (rule hd_dropWhile)
  ultimately have "\<not> P (hd (rev b))" using b by (simp add: hd_rev)
  with l t show ?thesis by simp
qed

lemma strip_ends_idem: "strip_ends P (strip_ends P s) = strip_ends P s"
proof (cases "strip_ends P s = []")
  case True
  have "strip_ends P [] = []" by (simp add: strip_ends_def)
  with True show ?thesis by simp
next
  case False
  define t where "t = strip_ends P s"
  from False strip_ends_ends[of P s] have e: "\<not> P (hd t)" "\<not> P (last t)" "t \<noteq> []"
    by (simp_all add: t_def)
  then have "dropWhile P t = t" by (simp add: dropWhile_eq_self_iff)
  moreover from e have "dropWhile P (rev t) = rev t"
    by (simp add: dropWhile_eq_self_iff hd_rev)
  ultimately have "strip_ends P t = t" by (simp add: strip_ends_def)
  then show ?thesis by (simp add: t_def)
qed

lemma strip_ends_keeps:
  assumes "c \<in> set g" and "\<not> P c"
  shows "c \<in> set (strip_ends P g)"
proof -
  have "filter (\<lambda>x. \<not> P x) (strip_ends P g) = filter (\<lambda>x. \<not> P x) g"
  proof -
    have "filter (\<lambda>x. \<not> P x) (rev (dropWhile P (rev (dropWhile P g))))
        = rev (filter (\<lambda>x. \<not> P x) (dropWhile P (rev (dropWhile P g))))"
      by (simp only: rev_filter)
    also have "\<dots> = rev (filter (\<lambda>x. \<not> P x) (rev (dropWhile P g)))"
      by (simp only: filter_not_dropWhile)
    also have "\<dots> = filter (\<lambda>x. \<not> P x) (dropWhile P g)"
      by (simp only: rev_filter rev_rev_ident)
    also have "\<dots> = filter (\<lambda>x. \<not> P x) g"
      by (simp only: filter_not_dropWhile)
    finally show ?thesis by (simp only: strip_ends_def)
  qed
  moreover from assms have "c \<in> set (filter (\<lambda>x. \<not> P x) g)" by simp
  ultimately have "c \<in> set (filter (\<lambda>x. \<not> P x) (strip_ends P g))" by simp
  then show ?thesis by simp
qed

lemma sublist_strip_ends: "sublist (strip_ends P s) s"
proof -
  obtain l r where "s = l @ strip_ends P s @ r" using strip_ends_parts[of s P] by blast
  then show ?thesis by (metis sublist_appendI)
qed

lemma token_free_strip: "token_free t \<Longrightarrow> token_free (py_strip t)"
proof -
  assume a: "token_free t"
  have "\<not> sublist w (py_strip t)" if "w \<in> set CURRENCY_SYMBOLS" for w
  proof
    assume "sublist w (py_strip t)"
    moreover have "sublist (py_strip t) t" by (simp add: py_strip_def sublist_strip_ends)
    ultimately have "sublist w t" by (rule sublist_order.order.trans)
    with a that show False by (simp add: token_free_def list_all_iff)
  qed
  then show ?thesis by (simp add: token_free_def list_all_iff)
qed

text \<open>What \<open>float\<close> accepts has no character below \<open>+\<close>.\<close>

lemma after_sign_chars: "c \<in> set t \<Longrightarrow> c = 43 \<or> c = 45 \<or> c \<in> set (after_sign t)"
  by (cases t) (auto simp: after_sign_def)

lemma exponent_chars:
  assumes "parse_exponent r = Some ex" and "c \<in> set r"
  shows "43 \<le> c"
proof (cases r)
  case Nil
  with assms(2) show ?thesis by simp
next
  case (Cons a as)
  with assms(1) have a: "a = 101 \<or> a = 69" and d: "list_all is_digit (after_sign as)"
    by (auto simp: parse_exponent_def Let_def split: if_splits)
  from assms(2) Cons consider "c = a" | "c \<in> set as" by auto
  then show ?thesis
  proof cases
    case 1
    with a show ?thesis by auto
  next
    case 2
    then have "c = 43 \<or> c = 45 \<or> c \<in> set (after_sign as)" by (rule after_sign_chars)
    with d show ?thesis by (auto simp: list_all_iff is_digit_def)
  qed
qed

lemma decimal_chars:
  assumes "parse_decimal r = Some v" and "c \<in> set r"
  shows "43 \<le> c"
proof -
  define r1 where "r1 = dropWhile is_digit r"
  define has_point where "has_point \<longleftrightarrow> r1 \<noteq> [] \<and> hd r1 = 46"
  define r2 where "r2 = (if has_point then dropWhile is_digit (tl r1) else r1)"
  from assms(1) obtain ex where ex: "parse_exponent r2 = Some ex"
    by (auto simp: parse_decimal_def Let_def r1_def has_point_def r2_def
        split: if_splits option.splits)
  have e: "43 \<le> x" if "x \<in> set r2" for x using ex that by (rule exponent_chars)
  have d: "43 \<le> x" if "x \<in> set (takeWhile is_digit xs)" for x xs
    using set_takeWhileD[OF that] by (simp add: is_digit_def)
  have "r = takeWhile is_digit r @ r1" by (simp add: r1_def)
  with assms(2) consider "c \<in> set (takeWhile is_digit r)" | "c \<in> set r1"
    by (metis Un_iff set_append)
  then show ?thesis
  proof cases
    case 1
    then show ?thesis by (rule d)
  next
    case 2
    show ?thesis
    proof (cases has_point)
      case True
      then have "r1 = 46 # tl r1" by (cases r1) (simp_all add: has_point_def)
      moreover have "tl r1 = takeWhile is_digit (tl r1) @ r2" using True by (simp add: r2_def)
      ultimately have "set r1 = {46} \<union> set (takeWhile is_digit (tl r1)) \<union> set r2"
        by (metis Un_assoc list.simps(15) insert_is_Un set_append)
      with 2 d e show ?thesis by auto
    next
      case False
      with 2 e show ?thesis by (simp add: r2_def)
    qed
  qed
qed

lemma accepted_chars:
  assumes "parse_float_ascii t = Some x" and "c \<in> set t"
  shows "43 \<le> c"
proof -
  from assms(2) consider "c = 43 \<or> c = 45" | "c \<in> set (after_sign t)"
    using after_sign_chars by blast
  then show ?thesis
  proof cases
    case 1
    then show ?thesis by auto
  next
    case 2
    define w where "w = ascii_lower (after_sign t)"
    show ?thesis
    proof (cases "w = lit ''inf'' \<or> w = lit ''infinity'' \<or> w = lit ''nan''")
      case True
      from 2 have "(if 65 \<le> c \<and> c \<le> 90 then c + 32 else c) \<in> set w"
        by (auto simp: w_def ascii_lower_def)
      with True show ?thesis by (auto split: if_splits)
    next
      case False
      with assms(1) obtain v where "parse_decimal (after_sign t) = Some v"
        by (auto simp: parse_float_ascii_def Let_def w_def split: if_splits option.splits)
      then show ?thesis using 2 by (rule decimal_chars)
    qed
  qed
qed

text \<open>Whitespace around the text does not matter to the underscores.\<close>

lemma underscores_ok_prev:
  "p \<noteq> 95 \<Longrightarrow> \<not> is_digit p \<Longrightarrow> q \<noteq> 95 \<Longrightarrow> \<not> is_digit q
    \<Longrightarrow> underscores_ok p xs = underscores_ok q xs"
  by (cases xs) auto

lemma underscores_ok_lead:
  assumes "\<forall>c \<in> set w. c \<noteq> 95 \<and> \<not> is_digit c" and "p \<noteq> 95" and "\<not> is_digit p"
    and "underscores_ok p (w @ rest)"
  shows "underscores_ok p rest"
  using assms
proof (induction w arbitrary: p)
  case Nil
  then show ?case by simp
next
  case (Cons c w)
  then have c: "c \<noteq> 95" "\<not> is_digit c" by simp_all
  with Cons.prems have "underscores_ok c (w @ rest)" by simp
  with Cons.IH[of c] Cons.prems(1) c have "underscores_ok c rest" by simp
  then show ?case using underscores_ok_prev[of c p rest] c Cons.prems(2,3) by simp
qed

lemma underscores_ok_trail:
  assumes "\<forall>c \<in> set w. c \<noteq> 95 \<and> \<not> is_digit c" and "underscores_ok p (xs @ w)"
  shows "underscores_ok p xs"
  using assms
proof (induction xs arbitrary: p)
  case Nil
  then show ?case by (cases w) (auto split: if_splits)
next
  case (Cons c xs)
  then show ?case by (auto split: if_splits)
qed

lemma space_to_ascii:
  assumes "isspace c"
  shows "to_ascii c \<noteq> 95" "\<not> is_digit (to_ascii c)"
    "ascii_space (to_ascii c) \<or> to_ascii c < 43"
  using assms by (auto simp: to_ascii_def isspace_def is_digit_def ascii_space_def)

lemma py_float_strip:
  assumes "py_float s = Some x"
  shows "py_float (py_strip s) = Some x"
proof -
  obtain l r where s: "s = l @ py_strip s @ r" and l: "list_all isspace l" and r: "list_all isspace r"
    using strip_ends_parts[of s isspace] by (auto simp: py_strip_def)
  define L where "L = map to_ascii l"
  define R where "R = map to_ascii r"
  define T where "T = map to_ascii (py_strip s)"
  have t: "map to_ascii s = L @ T @ R"
    by (subst s) (simp add: L_def R_def T_def)
  from assms have u: "underscores_ok 0 (L @ T @ R)"
    and p: "parse_float_ascii (ascii_strip (filter (\<lambda>c. c \<noteq> 95) (L @ T @ R))) = Some x"
    by (auto simp: py_float_def Let_def t split: if_splits)
  have nd: "\<forall>c \<in> set L \<union> set R. c \<noteq> 95 \<and> \<not> is_digit c"
    using l r space_to_ascii(1,2) by (auto simp: L_def R_def list_all_iff)
  then have f: "filter (\<lambda>c. c \<noteq> 95) (L @ T @ R) = L @ filter (\<lambda>c. c \<noteq> 95) T @ R"
    by (simp add: filter_id_conv)
  have sp: "ascii_space c" if "c \<in> set L \<union> set R" for c
  proof (rule ccontr)
    assume n: "\<not> ascii_space c"
    from that have "c \<in> set (L @ filter (\<lambda>c. c \<noteq> 95) T @ R)" by auto
    then have "c \<in> set (strip_ends ascii_space (L @ filter (\<lambda>c. c \<noteq> 95) T @ R))"
      using n by (rule strip_ends_keeps)
    with p f have "43 \<le> c" by (auto simp: ascii_strip_def intro: accepted_chars)
    moreover from that obtain w where "isspace w" "c = to_ascii w"
      using l r by (auto simp: L_def R_def list_all_iff)
    ultimately show False using n space_to_ascii(3)[of w] by auto
  qed
  then have "list_all ascii_space L" "list_all ascii_space R" by (simp_all add: list_all_iff)
  then have "ascii_strip (L @ filter (\<lambda>c. c \<noteq> 95) T @ R) = ascii_strip (filter (\<lambda>c. c \<noteq> 95) T)"
    by (simp only: ascii_strip_def strip_ends_padded)
  with p f have p': "parse_float_ascii (ascii_strip (filter (\<lambda>c. c \<noteq> 95) T)) = Some x" by simp
  from nd have ndL: "\<forall>c \<in> set L. c \<noteq> 95 \<and> \<not> is_digit c"
    and ndR: "\<forall>c \<in> set R. c \<noteq> 95 \<and> \<not> is_digit c" by blast+
  have z: "(0::nat) \<noteq> 95" "\<not> is_digit 0" by (simp_all add: is_digit_def)
  have "underscores_ok 0 (T @ R)" by (rule underscores_ok_lead[OF ndL z u])
  with ndR have "underscores_ok 0 T" by (rule underscores_ok_trail)
  with p' show ?thesis by (simp only: py_float_def Let_def T_def if_True)
qed

lemma py_float_not_a_number:
  "py_float [] = None" "py_float (lit '' '') = None" "py_float (lit ''None'') = None"
  by (simp_all add: parse_eval)

lemma dollar_comma_inert:
  "numero_a_texto (PStr (lit ''$1,234.56'')) = numero_a_texto (float_literal (123456 / 100))"
  by (simp add: all_eval)

lemma clean_num_token_free:
  assumes "token_free (py_str v)" and "py_float (py_str v) = Some x"
  shows "clean_num v = Inr (Some x)"
proof -
  from assms(2) have n: "v \<noteq> PNone" "v \<noteq> PStr []" "v \<noteq> PStr (lit '' '')"
    using py_float_not_a_number by auto
  have "strip_symbols CURRENCY_SYMBOLS (py_strip (py_str v)) = py_strip (py_str v)"
    using assms(1) by (intro strip_symbols_token_free token_free_strip)
  then have vs: "value_str v = py_strip (py_str v)"
    by (simp add: value_str_def py_strip_def strip_ends_idem)
  from assms(2) have f: "py_float (py_strip (py_str v)) = Some x" by (rule py_float_strip)
  with py_float_not_a_number(1) have "py_strip (py_str v) \<noteq> []" by auto
  with n vs f show ?thesis by (simp add: clean_num_def)
qed

text \<open>
  Claim C8.  The string \<open>$1,234.56\<close> and the float 1234.56 give the same phrase; and for
  every value whose text has none of the symbols and is read by \<open>float\<close> as a number,
  \<open>clean_num\<close> returns that number.
\<close>

theorem cleaning_is_inert:
  "numero_a_texto (PStr (lit ''$1,234.56'')) = numero_a_texto (float_literal (123456 / 100))
   \<and> (token_free (py_str v) \<and> py_float (py_str v) = Some x \<longrightarrow> clean_num v = Inr (Some x))"
  using dollar_comma_inert clean_num_token_free by blast

theorem cleaning_is_inert_witness:
  "token_free (py_str (PStr (lit '' 12.5 '')))
   \<and> py_float (py_str (PStr (lit '' 12.5 ''))) = Some (Finite (25 / 2))
   \<and> clean_num (PStr (lit '' 12.5 '')) = Inr (Some (Finite (25 / 2)))"
proof -
  have a: "token_free (py_str (PStr (lit '' 12.5 '')))"
    by (simp add: token_free_def CURRENCY_SYMBOLS_def sublist_Cons_right)
  have b: "py_float (py_str (PStr (lit '' 12.5 ''))) = Some (Finite (25 / 2))"
    by (simp add: parse_eval float_eval)
  from cleaning_is_inert[of "PStr (lit '' 12.5 '')" "Finite (25 / 2)"] a b show ?thesis by blast
qed

section \<open>The cents\<close>

lemma ipow_powi: "ipow b k = real b powi k"
  by (simp add: ipow_def power_int_def inverse_eq_divide power_one_over)

lemma ilog_up_bounds:
  "2 \<le> b \<Longrightarrow> 1 \<le> x \<Longrightarrow> 0 \<le> ilog_up b x \<and> real b powi (ilog_up b x) \<le> x"
proof (induction b x rule: ilog_up.induct)
  case (1 b x)
  show ?case
  proof (cases "x < real b")
    case True
    then have "ilog_up b x = 0" by (rule ilog_up_stop)
    with 1(3) show ?thesis by simp
  next
    case False
    with 1(2) have n: "\<not> (b < 2 \<or> x < real b)" by simp
    from False 1(2) have s: "ilog_up b x = 1 + ilog_up b (x / real b)"
      by (intro ilog_up_step) simp_all
    from False 1(2) have "1 \<le> x / real b" by simp
    from 1(1)[OF n 1(2) this]
    have k: "0 \<le> ilog_up b (x / real b)" and p: "real b powi (ilog_up b (x / real b)) \<le> x / real b"
      by simp_all
    from 1(2) have b0: "0 < real b" by simp
    then have "real b powi (1 + ilog_up b (x / real b)) = real b * real b powi (ilog_up b (x / real b))"
      by (simp add: power_int_add)
    also have "\<dots> \<le> real b * (x / real b)"
      using p b0 by (intro mult_left_mono) simp_all
    also have "\<dots> = x" using b0 by simp
    finally show ?thesis using k s by simp
  qed
qed

lemma ilog_down_bounds:
  "2 \<le> b \<Longrightarrow> 0 < x \<Longrightarrow> x < 1 \<Longrightarrow> real b powi (ilog_down b x) \<le> x"
proof (induction b x rule: ilog_down.induct)
  case (1 b x)
  from 1(2) have b0: "0 < real b" by simp
  from 1(2,3,4) have s: "ilog_down b x = ilog_down b (x * real b) - 1"
    by (intro ilog_down_step)
  have d: "real b powi (k - 1) = real b powi k / real b" for k
    using b0 by (simp add: power_int_diff)
  show ?case
  proof (cases "1 \<le> x * real b")
    case True
    then have "ilog_down b (x * real b) = 0" by (rule ilog_down_stop)
    with s have "real b powi (ilog_down b x) = 1 / real b" by (simp add: d inverse_eq_divide)
    also have "\<dots> \<le> x" using True b0 by (simp add: divide_le_eq)
    finally show ?thesis .
  next
    case False
    from 1(2,3,4) have n: "\<not> (b < 2 \<or> x \<le> 0 \<or> 1 \<le> x)" by simp
    from 1(3) b0 have "0 < x * real b" by simp
    from 1(1)[OF n 1(2) this] False
    have "real b powi (ilog_down b (x * real b)) \<le> x * real b" by simp
    then have "real b powi (ilog_down b (x * real b)) / real b \<le> x"
      using b0 by (simp add: divide_le_eq)
    with s show ?thesis by (simp add: d)
  qed
qed

lemma ilog2_le: "0 < y \<Longrightarrow> 2 powi (ilog 2 y) \<le> y"
  using ilog_up_bounds[of 2 y] ilog_down_bounds[of 2 y] by (auto simp: ilog_def)

lemma ilog2_nonneg: "1 \<le> y \<Longrightarrow> 0 \<le> ilog 2 y"
  using ilog_up_bounds[of 2 y] by (simp add: ilog_def)

lemma round_half_even_le: "q \<le> of_int N \<Longrightarrow> round_half_even q \<le> N"
proof -
  assume a: "q \<le> of_int N"
  then have f: "\<lfloor>q\<rfloor> \<le> N" by (simp add: floor_le_iff)
  have "\<lfloor>q\<rfloor> + 1 \<le> N" if "0 < q - of_int \<lfloor>q\<rfloor>"
  proof -
    from that a have "of_int \<lfloor>q\<rfloor> < (of_int N :: real)" by linarith
    then have "\<lfloor>q\<rfloor> < N" by simp
    then show ?thesis by simp
  qed
  with f show ?thesis by (auto simp: round_half_even_def Let_def)
qed

lemma round_half_even_ge: "of_int N \<le> q \<Longrightarrow> N \<le> round_half_even q"
proof -
  assume "of_int N \<le> q"
  then have "N \<le> \<lfloor>q\<rfloor>" by (simp add: le_floor_iff)
  then show ?thesis by (auto simp: round_half_even_def Let_def)
qed

lemma round_half_even_of_int: "round_half_even (of_int n) = n"
  by (simp add: round_half_even_def)

lemma to_double_pos:
  assumes "0 < y"
  shows "to_double y =
    (if (2::real) powi 1024 \<le> of_int (round_half_even (y / 2 powi (max (ilog 2 y) (- 1022) - 52)))
          * 2 powi (max (ilog 2 y) (- 1022) - 52)
     then PosInf
     else Finite (of_int (round_half_even (y / 2 powi (max (ilog 2 y) (- 1022) - 52)))
          * 2 powi (max (ilog 2 y) (- 1022) - 52)))"
proof -
  from assms have "y \<noteq> 0" "\<bar>y\<bar> = y" by simp_all
  then show ?thesis using assms
    by (simp only: to_double_def Let_def ipow_powi if_False if_True of_nat_numeral)
qed

text \<open>Rounding to a float does not pass a bound that is itself a float of the binade or above.\<close>

lemma to_double_le:
  assumes "0 < y" and "y \<le> real M * 2 ^ j" and "M < 2 ^ 53" and "real M * 2 ^ j < 2 ^ 1024"
  shows "\<exists>y'. to_double y = Finite y' \<and> 0 \<le> y' \<and> y' \<le> real M * 2 ^ j"
proof -
  define e where "e = max (ilog 2 y) (- 1022)"
  define u :: real where "u = 2 powi (e - 52)"
  have u0: "0 < u" by (simp add: u_def)
  have k: "e - 52 \<le> int j"
  proof (cases "ilog 2 y \<le> - 1022")
    case True
    then show ?thesis by (simp add: e_def)
  next
    case False
    then have ee: "e = ilog 2 y" by (simp add: e_def)
    have "(2::real) powi e \<le> y" using assms(1) by (simp add: ee ilog2_le)
    also have "\<dots> \<le> real M * 2 ^ j" by (rule assms(2))
    also have "\<dots> < 2 ^ 53 * 2 ^ j"
    proof -
      from assms(3) have "real M < 2 ^ 53"
        by (metis of_nat_less_iff of_nat_numeral of_nat_power)
      then show ?thesis by simp
    qed
    also have "\<dots> = (2::real) powi (53 + int j)"
      by (simp add: power_int_add)
    finally have "(2::real) powi e < 2 powi (53 + int j)" .
    then have "e < 53 + int j" by (intro power_int_le_imp_less_exp[of "2::real"]) simp_all
    then show ?thesis by simp
  qed
  define N where "N = int M * 2 ^ nat (int j - (e - 52))"
  have B: "real M * 2 ^ j = of_int N * u"
  proof -
    have "(2::real) ^ j = 2 powi (int j)" by simp
    also have "int j = (int j - (e - 52)) + (e - 52)" by simp
    also have "(2::real) powi ((int j - (e - 52)) + (e - 52))
        = 2 powi (int j - (e - 52)) * 2 powi (e - 52)"
      by (rule power_int_add) simp
    also have "(2::real) powi (int j - (e - 52)) = 2 ^ nat (int j - (e - 52))"
      using k by (simp add: power_int_def)
    finally show ?thesis by (simp add: N_def u_def)
  qed
  define m where "m = round_half_even (y / u)"
  from assms(2) B u0 have "y / u \<le> of_int N" by (simp add: divide_le_eq)
  then have mN: "m \<le> N" unfolding m_def by (rule round_half_even_le)
  from assms(1) u0 have "of_int 0 \<le> y / u" by simp
  then have m0: "0 \<le> m" unfolding m_def by (rule round_half_even_ge)
  from mN u0 have le: "of_int m * u \<le> real M * 2 ^ j"
    by (simp add: B)
  from m0 u0 have ge: "0 \<le> of_int m * u" by simp
  from le assms(4) have "\<not> (2::real) powi 1024 \<le> of_int m * u" by simp
  then have "to_double y = Finite (of_int m * u)"
    by (simp only: to_double_pos[OF assms(1)] m_def u_def e_def if_False)
  with le ge show ?thesis by blast
qed

lemma to_double_le_0:
  assumes "0 \<le> y" and "y \<le> real M * 2 ^ j" and "M < 2 ^ 53" and "real M * 2 ^ j < 2 ^ 1024"
  shows "\<exists>y'. to_double y = Finite y' \<and> 0 \<le> y' \<and> y' \<le> real M * 2 ^ j"
proof (cases "y = 0")
  case True
  with assms(2) show ?thesis by (simp add: to_double_def)
next
  case False
  with assms(1) have "0 < y" by simp
  then show ?thesis using assms(2,3,4) by (rule to_double_le)
qed

text \<open>An integer below \<open>2 ^ 53\<close> is a float.\<close>

lemma to_double_int:
  assumes "0 \<le> n" and "n < 2 ^ 53"
  shows "to_double (of_int n) = Finite (of_int n)"
proof (cases "n = 0")
  case True
  then show ?thesis by (simp add: to_double_def)
next
  case False
  with assms(1) have n1: "1 \<le> (of_int n :: real)" by linarith
  then have y0: "0 < (of_int n :: real)" by linarith
  define e where "e = ilog 2 (of_int n)"
  have e0: "0 \<le> e" using n1 by (simp add: e_def ilog2_nonneg)
  have "(2::real) powi e \<le> of_int n" using y0 by (simp add: e_def ilog2_le)
  also have "\<dots> < 2 ^ 53" using assms(2) by (metis of_int_less_iff of_int_numeral of_int_power)
  also have "\<dots> = (2::real) powi 53" by simp
  finally have "e < 53" by (intro power_int_le_imp_less_exp[of "2::real"]) simp_all
  then have e52: "0 \<le> 52 - e" by simp
  have me: "max e (- 1022) = e" using e0 by simp
  define u :: real where "u = 2 powi (e - 52)"
  have u0: "0 < u" by (simp add: u_def)
  have "u * 2 powi (52 - e) = 2 powi ((e - 52) + (52 - e))"
    unfolding u_def by (rule power_int_add[symmetric]) simp
  then have inv: "u * 2 ^ nat (52 - e) = 1" using e52 by (simp add: power_int_def)
  have "of_int n / u = of_int n * 2 ^ nat (52 - e)"
    using inv u0 by (simp add: divide_eq_eq mult.assoc mult.commute)
  also have "\<dots> = of_int (n * 2 ^ nat (52 - e))" by simp
  finally have q: "of_int n / u = of_int (n * 2 ^ nat (52 - e))" .
  have m: "round_half_even (of_int n / u) = n * 2 ^ nat (52 - e)"
    by (simp only: q round_half_even_of_int)
  have val: "of_int (n * 2 ^ nat (52 - e)) * u = of_int n"
    using inv by (simp add: mult.assoc mult.commute)
  have "(of_int n :: real) < 2 ^ 1024"
  proof -
    have "(of_int n :: real) < 2 ^ 53"
      using assms(2) by (metis of_int_less_iff of_int_numeral of_int_power)
    also have "\<dots> \<le> 2 ^ 1024" by (intro power_increasing) simp_all
    finally show ?thesis .
  qed
  then have "\<not> (2::real) powi 1024 \<le> of_int n" by simp
  then show ?thesis
    by (simp only: to_double_pos[OF y0] e_def[symmetric] me u_def[symmetric] m val if_False)
qed

lemma format_02d_two_digits:
  assumes "0 \<le> c" and "c \<le> 99"
  shows "format_02d c = [48 + nat c div 10, 48 + nat c mod 10]"
proof (cases "c < 10")
  case True
  with assms(1) have "nat c < 10" by simp
  then show ?thesis using assms(1) True by (simp add: format_02d_def digits_stop)
next
  case False
  with assms have n: "10 \<le> nat c" "nat c div 10 < 10" by simp_all
  then have "digits (nat c) = [48 + nat c div 10, 48 + nat c mod 10]"
    by (simp add: digits_step digits_stop)
  with False assms(1) show ?thesis by (simp add: format_02d_def)
qed

lemma parte_decimal_range:
  assumes "0 \<le> x" and "x < 2 ^ 53"
  shows "\<exists>cents. parte_decimal (Finite x) \<lfloor>x\<rfloor> = Inr cents \<and> 0 \<le> cents \<and> cents \<le> 100"
proof -
  define n where "n = \<lfloor>x\<rfloor>"
  from assms(1) have n0: "0 \<le> n" by (simp add: n_def)
  have "of_int n \<le> x" by (simp add: n_def)
  with assms(2) have "(of_int n :: real) < 2 ^ 53" by linarith
  then have n53: "n < 2 ^ 53" by (metis of_int_less_iff of_int_numeral of_int_power)
  have pe: "float_of_int n = Inr (Finite (of_int n))"
    by (simp add: float_of_int_def to_double_int[OF n0 n53])
  have prec: "float_of_int DECIMAL_PRECISION = Inr (Finite 100)"
    using to_double_int[of 100] by (simp add: float_of_int_def DECIMAL_PRECISION_def)
  have fr: "0 \<le> x - of_int n" "x - of_int n \<le> real 1 * 2 ^ 0"
    unfolding n_def by (simp, simp, linarith)
  from to_double_le_0[OF fr] obtain f where f: "to_double (x - of_int n) = Finite f"
    and f0: "0 \<le> f" and f1: "f \<le> 1" by auto
  from f0 f1 have sc: "0 \<le> f * 100" "f * 100 \<le> real 100 * 2 ^ 0" by simp_all
  from to_double_le_0[OF sc] obtain g where g: "to_double (f * 100) = Finite g"
    and g0: "0 \<le> g" and g1: "g \<le> 100" by auto
  from g0 have c0: "0 \<le> round_half_even g" by (intro round_half_even_ge) simp
  from g1 have c1: "round_half_even g \<le> 100" by (intro round_half_even_le) simp
  have "parte_decimal (Finite x) n = Inr (round_half_even g)"
    by (simp add: parte_decimal_def pe prec f g)
  with c0 c1 show ?thesis unfolding n_def by blast
qed

lemma texto_numero_defined:
  assumes "0 \<le> n" and "n < 2 ^ 53"
  shows "\<exists>texto. texto_numero n = Inr texto"
proof -
  have "(2::int) ^ 53 \<le> 10 ^ 27" by simp
  with assms have "\<not> 10 ^ 27 \<le> \<bar>n\<bar>" by linarith
  then show ?thesis by (simp add: texto_numero_def num2words_es_def)
qed

text \<open>
  The cents of a finite amount \<open>x\<close> with \<open>0 \<le> x < 2 ^ 53\<close> that \<open>clean_num\<close> accepts
  are between 0 and 100, the phrase ends with them in the format \<open>02d\<close> followed by
  \<open>/100 M.N.\<close>, and cents of at most 99 are written with exactly two digits.
\<close>

lemma cents_bounds:
  assumes "clean_num valor = Inr (Some (Finite x))" and "0 \<le> x" and "x < 2 ^ 53"
  shows "\<exists>cents texto.
           parte_decimal (Finite x) \<lfloor>x\<rfloor> = Inr cents \<and> 0 \<le> cents \<and> cents \<le> 100
           \<and> numero_a_texto valor = Inr (texto @ sufijo_centavos cents)
           \<and> (cents \<le> 99 \<longrightarrow>
                sufijo_centavos cents
                  = [48 + nat cents div 10, 48 + nat cents mod 10] @ lit ''/100 M.N.'')"
proof -
  from parte_decimal_range[OF assms(2,3)] obtain cents
    where pd: "parte_decimal (Finite x) \<lfloor>x\<rfloor> = Inr cents" and c0: "0 \<le> cents" and c1: "cents \<le> 100"
    by blast
  from assms(2) have n0: "0 \<le> \<lfloor>x\<rfloor>" by simp
  have "of_int \<lfloor>x\<rfloor> \<le> x" by simp
  with assms(3) have "(of_int \<lfloor>x\<rfloor> :: real) < 2 ^ 53" by linarith
  then have "\<lfloor>x\<rfloor> < 2 ^ 53" by (metis of_int_less_iff of_int_numeral of_int_power)
  from texto_numero_defined[OF n0 this] obtain t where t: "texto_numero \<lfloor>x\<rfloor> = Inr t" by blast
  define texto where "texto = (if \<lfloor>x\<rfloor> = 1 then lit ''UN PESO '' else t @ lit '' PESOS '')"
  have "render_amount (Finite x) = Inr (texto @ sufijo_centavos cents)"
    using assms(2) by (simp add: render_amount_def pd t texto_def)
  then have r: "numero_a_texto valor = Inr (texto @ sufijo_centavos cents)"
    by (simp add: numero_a_texto_def assms(1))
  have "sufijo_centavos cents = [48 + nat cents div 10, 48 + nat cents mod 10] @ lit ''/100 M.N.''"
    if "cents \<le> 99"
    using format_02d_two_digits[OF c0 that] by (simp add: sufijo_centavos_def CURRENCY_SUFFIX_def)
  with pd c0 c1 r show ?thesis by blast
qed

lemma clean_1523_45:
  "clean_num (PStr (lit ''1523.45'')) = Inr (Some (Finite (6700203957341389 / 2 ^ 42)))"
  by (simp add: clean_eval parse_eval float_eval py_replace_def)

lemma cents_bounds_example:
  "clean_num (PStr (lit ''1523.45'')) = Inr (Some (Finite (6700203957341389 / 2 ^ 42)))
   \<and> (0::real) \<le> 6700203957341389 / 2 ^ 42 \<and> (6700203957341389 / 2 ^ 42 :: real) < 2 ^ 53
   \<and> (\<exists>cents texto.
         parte_decimal (Finite (6700203957341389 / 2 ^ 42)) \<lfloor>6700203957341389 / 2 ^ 42 :: real\<rfloor>
           = Inr cents
         \<and> 0 \<le> cents \<and> cents \<le> 100
         \<and> numero_a_texto (PStr (lit ''1523.45'')) = Inr (texto @ sufijo_centavos cents))"
proof -
  have h2: "(0::real) \<le> 6700203957341389 / 2 ^ 42" by simp
  have h3: "(6700203957341389 / 2 ^ 42 :: real) < 2 ^ 53" by simp
  from cents_bounds[OF clean_1523_45 h2 h3] clean_1523_45 h2 h3 show ?thesis by blast
qed

end
